theory Spec2Isabelle
  imports Main
begin

section \<open>Mark-compact collector: planner, page state machine, fault resolution\<close>

text \<open>
  A shallow embedding of the parts of the concurrent mark-compact collector
  (class \<open>MarkCompact\<close>) that plan compaction, drive the per-page state machine,
  resolve access faults and recycle from-space pages.

  Addresses, sizes and indices are natural numbers (64-bit pointers and \<open>size_t\<close>
  values that the code never lets wrap). The entries of \<open>chunk_info_vec\<close> are
  \<open>uint32_t\<close>: their arithmetic is written with the wrap-around \<open>mod 2 ^ 32\<close>.
  The arrays carved out of the info map are raw pointers in the source; they are
  functions from the index to the element here, so that a read one past the
  used part is a read of whatever the memory holds there.
\<close>

subsection \<open>Machine arithmetic and alignment helpers\<close>

definition u32 :: "nat \<Rightarrow> nat" where
  "u32 n = n mod 2 ^ 32"

text \<open>\<open>AlignDown(x, n)\<close>, \<open>AlignUp(x, n)\<close> and \<open>RoundUp(x, n)\<close> of \<open>base/bit_utils.h\<close>.\<close>

definition AlignDown :: "nat \<Rightarrow> nat \<Rightarrow> nat" where
  "AlignDown x n = x - x mod n"

definition RoundUp :: "nat \<Rightarrow> nat \<Rightarrow> nat" where
  "RoundUp x n = AlignDown (x + n - 1) n"

definition AlignUp :: "nat \<Rightarrow> nat \<Rightarrow> nat" where
  "AlignUp x n = RoundUp x n"

subsection \<open>Outcomes that end a call early\<close>

text \<open>
  \<open>CHECK\<close>, \<open>LOG(FATAL)\<close> and \<open>UNREACHABLE()\<close> abort the process. \<open>Undefined\<close>
  stands for a loop counter that steps past zero or an index that runs below
  its array. \<open>NoReply\<close>: the kernel has not answered the pending \<open>ioctl\<close> (the
  finite list of replies is used up). \<open>Waiting\<close>: the thread is in a back-off
  loop that only another thread's write can end. A function that can stop
  early returns \<open>stop + 'a\<close>.
\<close>

datatype stop = CheckFailed | LogFatal | Unreachable | Undefined | NoReply | Waiting

definition bnd :: "stop + 'a \<Rightarrow> ('a \<Rightarrow> stop + 'b) \<Rightarrow> stop + 'b" where
  "bnd m f = (case m of Inl e \<Rightarrow> Inl e | Inr x \<Rightarrow> f x)"

subsection \<open>Page states, kernel requests, the collector's state\<close>

text \<open>
  The enumerations \<open>PageState\<close> and the compaction modes are declared in the
  collector's header; the constructors are the names the source uses. A
  moving-space status word packs the state into its low byte and, for
  \<open>kProcessed\<close>, the from-space offset of the page's buffer into the bits above;
  the model keeps the two parts as a pair.
\<close>

datatype PageState =
  kUnprocessed | kProcessing | kProcessed | kProcessingAndMapping |
  kMutatorProcessing | kProcessedAndMapping | kProcessedAndMapped

datatype Mode = kCopyMode | kMinorFaultMode | kFallbackMode

type_synonym status = "PageState \<times> nat"

text \<open>
  Modelled from the spec: the numbering of \<open>PageState\<close> and \<open>kPageStateMask\<close>
  are declared in the collector's header, which is not part of the source. A word
  of \<open>moving_pages_status_\<close> is a \<open>uint32_t\<close> whose low byte is the page state and
  whose other bits are a from-space offset; the model keeps it decoded, as the
  pair of the two. \<open>word_status\<close> decodes a word; a low byte that numbers no page
  state has no decoding.
\<close>

fun PageState_code :: "PageState \<Rightarrow> nat" where
  "PageState_code kUnprocessed = 0"
| "PageState_code kProcessing = 1"
| "PageState_code kProcessed = 2"
| "PageState_code kProcessingAndMapping = 3"
| "PageState_code kMutatorProcessing = 4"
| "PageState_code kProcessedAndMapping = 5"
| "PageState_code kProcessedAndMapped = 6"

definition PageState_of :: "nat \<Rightarrow> PageState option" where
  "PageState_of c =
     (if c = 0 then Some kUnprocessed else if c = 1 then Some kProcessing
      else if c = 2 then Some kProcessed else if c = 3 then Some kProcessingAndMapping
      else if c = 4 then Some kMutatorProcessing else if c = 5 then Some kProcessedAndMapping
      else if c = 6 then Some kProcessedAndMapped else None)"

definition kPageStateMask :: nat where
  "kPageStateMask = 255"

definition word_status :: "nat \<Rightarrow> status option" where
  "word_status w =
     (case PageState_of (and w kPageStateMask) of
        None \<Rightarrow> None
      | Some st \<Rightarrow> Some (st, w - and w kPageStateMask))"

datatype errno = EAGAIN | ENOENT | EEXIST | EOTHER

text \<open>
  A userfaultfd request with its range, and the kernel's answer: the return
  value of \<open>ioctl\<close>, \<open>errno\<close>, and the signed count the kernel writes back
  (\<open>copy\<close>, \<open>zeropage\<close> or \<open>mapped\<close>).
\<close>

datatype request =
  UFFDIO_COPY nat nat nat | UFFDIO_ZEROPAGE nat nat | UFFDIO_CONTINUE nat nat | UFFDIO_WAKE nat nat

record reply =
  r_ret :: int
  r_errno :: errno
  r_bytes :: int

text \<open>
  What a run of the collector's code does, in order: kernel requests,
  \<open>madvise\<close>, calls of the two publish wrappers and of the two page compactors
  with their arguments, and two instrumentation records: \<open>Compacting i\<close> where the compaction function
  of destination page \<open>i\<close> is invoked, and \<open>StateChange i old new\<close> for every
  write (store or successful compare-and-swap) to a page's state.
\<close>

datatype event =
  Ioctl request
| Madvise nat int bool
| CallZeropageIoctl nat nat bool bool
| CallCopyIoctl nat nat nat
| CallCompactPage nat nat nat bool
| CallSlideBlackPage nat nat nat nat nat bool
| Compacting nat
| StateChange nat PageState PageState

record thread =
  tlab_start :: nat
  tlab_end :: nat
  thread_local_gc_buffer :: nat

record MarkCompact =
  gPageSize :: nat
  kAlignment :: nat
  kOffsetChunkSize :: nat
  kBitsPerVectorWord :: nat
  bump_pointer_space_Begin :: nat
  moving_space_begin :: nat
  moving_space_end :: nat
  from_space_begin :: nat
  from_space_slide_diff :: nat
  shadow_to_space_map_Begin :: nat
  compaction_buffers_map_Begin :: nat
  black_allocations_begin :: nat
  post_compact_end :: nat
  black_objs_slide_diff :: int
  vector_length :: nat
  chunk_info_vec :: "nat \<Rightarrow> nat"
  live_words_bitmap :: "nat \<Rightarrow> bool"
  live_words_bitmap_Begin :: nat
  freed_objects :: int
  moving_first_objs_count :: nat
  black_page_count :: nat
  first_objs_moving_space :: "nat \<Rightarrow> nat"
  pre_compact_offset_moving_space :: "nat \<Rightarrow> nat"
  black_alloc_pages_first_chunk_size :: "nat \<Rightarrow> nat"
  moving_pages_status :: "nat \<Rightarrow> status"
  last_reclaimed_page :: nat
  last_reclaimable_page :: nat
  cur_reclaimable_page :: nat
  last_checked_reclaim_page_idx :: nat
  class_after_obj_hash_map :: "(nat \<times> nat) list"
  super_class_after_class_hash_map :: "(nat \<times> nat) list"
  class_after_obj_ordered_map :: "(nat \<times> nat) list"
  class_after_obj_iter :: "(nat \<times> nat) list"
  SizeOf :: "nat \<Rightarrow> nat"
  minor_fault_initialized :: bool
  use_uffd_sigbus :: bool
  linear_alloc_spaces_data :: "(nat \<times> nat) list"
  sigbus_in_progress_count :: nat
  kSigbusCounterCompactionDoneMask :: nat
  compaction_in_progress_count :: nat
  compaction_buffer_counter :: nat
  kernel :: "reply list"
  events :: "event list"

definition emit :: "event \<Rightarrow> MarkCompact \<Rightarrow> MarkCompact" where
  "emit e s = s\<lparr>events := events s @ [e]\<rparr>"

text \<open>A write to the state of moving-space page \<open>i\<close> (atomic store or won CAS).\<close>

definition set_status :: "nat \<Rightarrow> status \<Rightarrow> MarkCompact \<Rightarrow> MarkCompact" where
  "set_status i v s =
     emit (StateChange i (fst (moving_pages_status s i)) (fst v))
       (s\<lparr>moving_pages_status := (moving_pages_status s)(i := v)\<rparr>)"


text \<open>\<open>size_t\<close> arithmetic with a signed operand wraps modulo \<open>2 ^ 64\<close>.\<close>

definition size_t :: "int \<Rightarrow> nat" where
  "size_t x = nat (x mod 2 ^ 64)"

definition DivideByPageSize :: "MarkCompact \<Rightarrow> nat \<Rightarrow> nat" where
  "DivideByPageSize s n = n div gPageSize s"

text \<open>
  Modelled from the spec: \<open>HasAddress\<close> is declared in the collector's header,
  which is not part of the source. An address belongs to the moving space when
  it lies in \<open>[moving_space_begin_, moving_space_end_)\<close>.
\<close>

definition HasAddress :: "MarkCompact \<Rightarrow> nat \<Rightarrow> bool" where
  "HasAddress s obj = (moving_space_begin s \<le> obj \<and> obj < moving_space_end s)"

subsection \<open>Publishing pages: the ioctl wrappers\<close>

text \<open>
  \<open>MarkCompact::ZeropageIoctl\<close>. The loop variables are the range start and the
  remaining length; on \<open>EAGAIN\<close> both are adjusted by the count the kernel wrote
  back and the request is issued again.
\<close>

function ZeropageIoctl_loop :: "nat \<Rightarrow> nat \<Rightarrow> bool \<Rightarrow> bool \<Rightarrow> MarkCompact \<Rightarrow> stop + MarkCompact" where
  "ZeropageIoctl_loop start len tolerate_eexist tolerate_enoent s =
     (if len > 0 then
        (case kernel s of
           [] \<Rightarrow> Inl NoReply
         | r # rs \<Rightarrow>
             let s1 = emit (Ioctl (UFFDIO_ZEROPAGE start len)) (s\<lparr>kernel := rs\<rparr>)
             in if r_ret r = 0 then Inr s1
                else if r_errno r = EAGAIN then
                  ZeropageIoctl_loop (size_t (int start + r_bytes r)) (size_t (int len - r_bytes r))
                    tolerate_eexist tolerate_enoent s1
                else if (tolerate_enoent \<and> r_errno r = ENOENT)
                        \<or> (tolerate_eexist \<and> r_errno r = EEXIST) then Inr s1
                else Inl CheckFailed)
      else Inr s)"
  by pat_completeness auto
termination
  by (relation "measure (\<lambda>(start, len, te, tn, s). length (kernel s))") (auto simp: emit_def)

declare ZeropageIoctl_loop.simps [simp del]

definition ZeropageIoctl :: "nat \<Rightarrow> nat \<Rightarrow> bool \<Rightarrow> bool \<Rightarrow> MarkCompact \<Rightarrow> stop + MarkCompact" where
  "ZeropageIoctl addr len tolerate_eexist tolerate_enoent s =
     ZeropageIoctl_loop addr len tolerate_eexist tolerate_enoent
       (emit (CallZeropageIoctl addr len tolerate_eexist tolerate_enoent) s)"

text \<open>\<open>MarkCompact::CopyIoctl\<close>: the same loop on destination, source and length.\<close>

function CopyIoctl_loop :: "nat \<Rightarrow> nat \<Rightarrow> nat \<Rightarrow> MarkCompact \<Rightarrow> stop + MarkCompact" where
  "CopyIoctl_loop dst src len s =
     (if len > 0 then
        (case kernel s of
           [] \<Rightarrow> Inl NoReply
         | r # rs \<Rightarrow>
             let s1 = emit (Ioctl (UFFDIO_COPY dst src len)) (s\<lparr>kernel := rs\<rparr>)
             in if r_ret r = 0 then Inr s1
                else if r_errno r = EAGAIN then
                  CopyIoctl_loop (size_t (int dst + r_bytes r)) (size_t (int src + r_bytes r))
                    (size_t (int len - r_bytes r)) s1
                else Inl LogFatal)
      else Inr s)"
  by pat_completeness auto
termination
  by (relation "measure (\<lambda>(dst, src, len, s). length (kernel s))") (auto simp: emit_def)

declare CopyIoctl_loop.simps [simp del]

definition CopyIoctl :: "nat \<Rightarrow> nat \<Rightarrow> nat \<Rightarrow> MarkCompact \<Rightarrow> stop + MarkCompact" where
  "CopyIoctl dst buffer len s = CopyIoctl_loop dst buffer len (emit (CallCopyIoctl dst buffer len) s)"

subsection \<open>Mapping processed pages\<close>








text \<open>
  \<open>MarkCompact::MapMovingSpacePages\<close>: the same for the moving space's status
  words, published with \<open>CopyIoctl\<close>. The value returned is the local \<open>length\<close>
  as the marking loop leaves it.
\<close>

function claim_moving :: "nat \<Rightarrow> nat \<Rightarrow> nat \<Rightarrow> MarkCompact \<Rightarrow> nat \<times> MarkCompact" where
  "claim_moving i arr_len len s =
     (if i < arr_len then
        (if fst (moving_pages_status s i) \<noteq> kProcessed then (len, s)
         else claim_moving (i + 1) arr_len (len + gPageSize s)
                (set_status i (kProcessedAndMapping, 0) s))
      else (len, s))"
  by pat_completeness auto
termination
  by (relation "measure (\<lambda>(i, arr_len, len, s). arr_len - i)") auto

declare claim_moving.simps [simp del]

function mark_moving_mapped :: "nat \<Rightarrow> nat \<Rightarrow> MarkCompact \<Rightarrow> stop + (nat \<times> MarkCompact)" where
  "mark_moving_mapped i len s =
     (if len > 0 then
        (if gPageSize s = 0 \<or> len < gPageSize s then Inl Undefined
         else mark_moving_mapped (i + 1) (len - gPageSize s)
                (set_status i (kProcessedAndMapped, 0) s))
      else Inr (len, s))"
  by pat_completeness auto
termination
  by (relation "measure (\<lambda>(i, len, s). len)") (auto simp: set_status_def emit_def)

declare mark_moving_mapped.simps [simp del]

definition MapMovingSpacePages :: "nat \<Rightarrow> nat \<Rightarrow> MarkCompact \<Rightarrow> stop + (nat \<times> MarkCompact)" where
  "MapMovingSpacePages arr_idx arr_len s =
     (let cur_state = moving_pages_status s arr_idx
      in if fst cur_state \<noteq> kProcessed then Inr (0, s)
         else
           let from_space_offset = snd cur_state;
               to_space_start = moving_space_begin s + arr_idx * gPageSize s;
               from_space_start = from_space_begin s + from_space_offset;
               (len, s1) = claim_moving arr_idx arr_len 0 s
           in if len > 0 then
                bnd (CopyIoctl to_space_start from_space_start len s1)
                    (\<lambda>s2. mark_moving_mapped arr_idx len s2)
              else Inr (len, s1))"

subsection \<open>Compacting a page under the state machine\<close>

text \<open>
  \<open>CompactPage\<close> and \<open>SlideBlackPage\<close> fill a page buffer from the from-space
  image. The buffer contents are not modelled: a call is recorded with its
  arguments.
\<close>

definition CompactPage :: "nat \<Rightarrow> nat \<Rightarrow> nat \<Rightarrow> bool \<Rightarrow> MarkCompact \<Rightarrow> MarkCompact" where
  "CompactPage obj offset addr needs_memset_zero s =
     emit (CallCompactPage obj offset addr needs_memset_zero) s"

definition SlideBlackPage ::
  "nat \<Rightarrow> nat \<Rightarrow> nat \<Rightarrow> nat \<Rightarrow> nat \<Rightarrow> bool \<Rightarrow> MarkCompact \<Rightarrow> MarkCompact" where
  "SlideBlackPage first_obj next_page_first_obj first_chunk_size pre_compact_page dest
       needs_memset_zero s =
     emit (CallSlideBlackPage first_obj next_page_first_obj first_chunk_size pre_compact_page
             dest needs_memset_zero) s"

text \<open>
  \<open>MarkCompact::DoPageCompactionWithStateChange<kMode>\<close>. \<open>func\<close> is the
  compaction closure. The compare-and-swap expects the whole status word to be
  \<open>kUnprocessed\<close>; in fallback mode it is not attempted. The word stored for a
  page that is not mapped at once is the offset of \<open>page\<close> in the from-space
  with \<open>kProcessed\<close> or-ed in: if the offset's low byte is not zero, the state
  read back from the word is the one its low byte numbers.
\<close>

definition DoPageCompactionWithStateChange ::
  "Mode \<Rightarrow> nat \<Rightarrow> nat \<Rightarrow> nat \<Rightarrow> bool \<Rightarrow> (MarkCompact \<Rightarrow> MarkCompact) \<Rightarrow> MarkCompact
   \<Rightarrow> stop + (bool \<times> MarkCompact)" where
  "DoPageCompactionWithStateChange kMode page_idx to_space_page page map_immediately func s =
     (let desired_state = (if map_immediately then kProcessingAndMapping else kProcessing)
      in if kMode = kFallbackMode \<or> moving_pages_status s page_idx = (kUnprocessed, 0) then
           let s1 = (if kMode = kFallbackMode then s else set_status page_idx (desired_state, 0) s);
               s2 = func (emit (Compacting page_idx) s1)
           in if kMode = kCopyMode then
                (if map_immediately then
                   bnd (CopyIoctl to_space_page page (gPageSize s2) s2)
                       (\<lambda>s3. Inr (True, set_status page_idx (kProcessedAndMapped, 0) s3))
                 else
                   let store_val = u32 (size_t (int page - int (from_space_begin s2)))
                   in case word_status (or store_val (PageState_code kProcessed)) of
                        None \<Rightarrow> Inl Undefined
                      | Some v \<Rightarrow> Inr (True, set_status page_idx v s2))
              else if kMode = kMinorFaultMode then Inl Unreachable
              else Inr (True, s2)
         else Inr (False, s))"

subsection \<open>Recycling from-space pages\<close>

text \<open>
  Modelled from the spec: \<open>GetFromSpaceAddr\<close> is declared in the collector's
  header, which is not part of the source. The from-space copy of a moving-space
  address lies \<open>from_space_slide_diff_\<close> above it.
\<close>

definition GetFromSpaceAddr :: "MarkCompact \<Rightarrow> nat \<Rightarrow> nat" where
  "GetFromSpaceAddr s obj = obj + from_space_slide_diff s"

definition kMinFromSpaceMadviseSize :: int where
  "kMinFromSpaceMadviseSize = 8 * 1024 * 1024"

text \<open>
  \<open>madvise\<close> on a from-space range (\<open>MADV_REMOVE\<close> when the flag is set, else
  \<open>MADV_DONTNEED\<close>); its result is the kernel's next reply and is \<open>CHECK\<close>ed.
\<close>

definition madvise :: "nat \<Rightarrow> int \<Rightarrow> bool \<Rightarrow> MarkCompact \<Rightarrow> stop + MarkCompact" where
  "madvise addr size_arg remove s =
     (case kernel s of
        [] \<Rightarrow> Inl NoReply
      | r # rs \<Rightarrow>
          if r_ret r \<noteq> 0 then Inl CheckFailed
          else Inr (emit (Madvise addr size_arg remove) (s\<lparr>kernel := rs\<rparr>)))"

text \<open>The loops of \<open>MarkCompact::FreeFromSpacePages\<close>.\<close>

fun reclaim_idx :: "nat \<Rightarrow> nat \<Rightarrow> MarkCompact \<Rightarrow> nat" where
  "reclaim_idx idx cur_page_idx s =
     (if idx > cur_page_idx then
        (if fst (moving_pages_status s (idx - 1)) = kMutatorProcessing then idx
         else reclaim_idx (idx - 1) cur_page_idx s)
      else idx)"

declare reclaim_idx.simps [simp del]

function black_reclaim_begin :: "nat \<Rightarrow> nat \<Rightarrow> nat \<Rightarrow> nat \<Rightarrow> MarkCompact \<Rightarrow> nat" where
  "black_reclaim_begin i idx_len first_obj reclaim_begin s =
     (if i < idx_len then
        (let obj = first_objs_moving_space s i
         in if obj \<noteq> first_obj then
              (if obj \<noteq> 0 then AlignUp obj (gPageSize s)
               else black_allocations_begin s + (i - moving_first_objs_count s) * gPageSize s)
            else black_reclaim_begin (i + 1) idx_len first_obj reclaim_begin s)
      else reclaim_begin)"
  by pat_completeness auto
termination
  by (relation "measure (\<lambda>(i, idx_len, first_obj, reclaim_begin, s). idx_len - i)") auto

declare black_reclaim_begin.simps [simp del]

text \<open>
  The moving-space search returns the first object found that differs from
  \<open>first_obj\<close>, or \<open>first_obj\<close> itself when the loop runs out (the value \<open>obj\<close>
  holds after the loop).
\<close>

function moving_next_obj :: "nat \<Rightarrow> nat \<Rightarrow> MarkCompact \<Rightarrow> nat" where
  "moving_next_obj i first_obj s =
     (if i < moving_first_objs_count s then
        (let obj = first_objs_moving_space s i
         in if first_obj \<noteq> obj then obj else moving_next_obj (i + 1) first_obj s)
      else first_obj)"
  by pat_completeness auto
termination
  by (relation "measure (\<lambda>(i, first_obj, s). moving_first_objs_count s - i)") auto

declare moving_next_obj.simps [simp del]

text \<open>
  The walk over \<open>class_after_obj_ordered_map_\<close> from the reverse iterator
  (highest class first). \<open>break\<close> leaves the iterator on the current pair;
  \<open>continue\<close> advances it.
\<close>

fun class_after_obj_walk ::
  "(nat \<times> nat) list \<Rightarrow> nat \<Rightarrow> nat \<Rightarrow> MarkCompact \<Rightarrow> (nat \<times> nat) list \<times> nat" where
  "class_after_obj_walk [] reclaim_begin idx_addr s = ([], reclaim_begin)"
| "class_after_obj_walk ((klass, obj_addr) # rest) reclaim_begin idx_addr s =
     (let klass_end = klass + SizeOf s (GetFromSpaceAddr s klass)
      in if klass_end \<ge> reclaim_begin then
           (if obj_addr < idx_addr then ((klass, obj_addr) # rest, AlignUp klass_end (gPageSize s))
            else class_after_obj_walk rest reclaim_begin idx_addr s)
         else ((klass, obj_addr) # rest, reclaim_begin))"

text \<open>
  Waiting, after \<open>MapMovingSpacePages\<close>, for the pages another thread is mapping:
  with no other thread running, a page that is not yet mapped is never mapped.
\<close>

function wait_mapped :: "nat \<Rightarrow> nat \<Rightarrow> MarkCompact \<Rightarrow> stop + MarkCompact" where
  "wait_mapped i end_idx s =
     (if i < end_idx then
        (if fst (moving_pages_status s i) \<noteq> kProcessedAndMapped then Inl Waiting
         else wait_mapped (i + 1) end_idx s)
      else Inr s)"
  by pat_completeness auto
termination
  by (relation "measure (\<lambda>(i, end_idx, s). end_idx - i)") auto

declare wait_mapped.simps [simp del]

text \<open>
  The reclaim point \<open>FreeFromSpacePages\<close> computes for to-space page \<open>idx\<close>,
  before the class-after-object map is consulted, with the from-space address
  \<open>idx_addr\<close> of that page.
\<close>

definition idx_addr_of :: "MarkCompact \<Rightarrow> nat \<Rightarrow> nat" where
  "idx_addr_of s idx =
     (if idx \<ge> moving_first_objs_count s then
        black_allocations_begin s + (idx - moving_first_objs_count s) * gPageSize s
      else bump_pointer_space_Begin s + pre_compact_offset_moving_space s idx * kAlignment s)"

definition first_obj_reclaim_begin :: "MarkCompact \<Rightarrow> nat \<Rightarrow> nat" where
  "first_obj_reclaim_begin s idx =
     (let idx_addr = idx_addr_of s idx;
          first_obj = first_objs_moving_space s idx
      in if idx \<ge> moving_first_objs_count s then
           (if first_obj \<noteq> 0 \<and> first_obj < idx_addr then
              black_reclaim_begin (idx + 1) (moving_first_objs_count s + black_page_count s)
                first_obj idx_addr s
            else idx_addr)
         else
           AlignUp
             (if first_obj < idx_addr then
                (let obj = moving_next_obj (idx + 1) first_obj s
                 in if obj = first_obj then black_allocations_begin s else obj)
              else idx_addr)
             (gPageSize s))"

text \<open>\<open>MarkCompact::FreeFromSpacePages\<close>.\<close>

definition FreeFromSpacePages ::
  "nat \<Rightarrow> Mode \<Rightarrow> nat \<Rightarrow> MarkCompact \<Rightarrow> stop + (bool \<times> MarkCompact)" where
  "FreeFromSpacePages cur_page_idx mode end_idx_for_mapping s =
     (let idx = reclaim_idx (last_checked_reclaim_page_idx s) cur_page_idx s
      in if idx = last_checked_reclaim_page_idx s then Inr (False, s)
         else
           let idx_addr = idx_addr_of s idx;
               reclaim_begin0 = first_obj_reclaim_begin s idx;
               (iter, reclaim_begin) =
                 class_after_obj_walk (class_after_obj_iter s) reclaim_begin0 idx_addr s;
               s1 = s\<lparr>class_after_obj_iter := iter\<rparr>;
               ret0 = (mode = kFallbackMode);
               size0 = int (last_reclaimed_page s1) - int reclaim_begin
           in bnd (if size0 > kMinFromSpaceMadviseSize then
                     bnd (if mode = kCopyMode \<and> cur_page_idx < end_idx_for_mapping then
                            bnd (MapMovingSpacePages cur_page_idx end_idx_for_mapping s1)
                              (\<lambda>(len, s2).
                                 bnd (wait_mapped (cur_page_idx + DivideByPageSize s2 len)
                                        end_idx_for_mapping s2)
                                   (\<lambda>s3. Inr (True, s3)))
                          else Inr (ret0, s1))
                       (\<lambda>(ret, s4).
                          let gBufferPages = 4 * int (gPageSize s4);
                              size1 = size0 - gBufferPages;
                              addr = nat (int (last_reclaimed_page s4) - size1)
                          in bnd (madvise (addr + from_space_slide_diff s4) size1
                                    (minor_fault_initialized s4) s4)
                               (\<lambda>s5. Inr (ret, s5\<lparr>last_reclaimed_page := addr,
                                                    cur_reclaimable_page := addr\<rparr>)))
                   else Inr (ret0, s1))
                (\<lambda>(ret, s6).
                   if \<not> reclaim_begin \<le> last_reclaimable_page s6 then Inl CheckFailed
                   else Inr (ret, s6\<lparr>last_reclaimable_page := reclaim_begin,
                                      last_checked_reclaim_page_idx := idx\<rparr>)))"

subsection \<open>The collector thread's pass over the moving space\<close>

text \<open>
  \<open>MarkCompact::UpdateClassAfterObjMap\<close>. The two hash maps are lists of pairs;
  the ordered map is a list sorted by class address. \<open>try_emplace_lowest\<close> is
  \<open>try_emplace\<close> followed by the replacement of the stored object by a lower one.
\<close>

fun try_emplace_lowest :: "nat \<Rightarrow> nat \<Rightarrow> (nat \<times> nat) list \<Rightarrow> (nat \<times> nat) list" where
  "try_emplace_lowest key obj [] = [(key, obj)]"
| "try_emplace_lowest key obj ((k, v) # m) =
     (if key < k then (key, obj) # (k, v) # m
      else if key = k then (k, if obj < v then obj else v) # m
      else (k, v) # try_emplace_lowest key obj m)"

definition UpdateClassAfterObjMap :: "MarkCompact \<Rightarrow> stop + MarkCompact" where
  "UpdateClassAfterObjMap s =
     (if class_after_obj_ordered_map s \<noteq> [] then Inl CheckFailed
      else
        Inr (s\<lparr>class_after_obj_ordered_map :=
                 fold (\<lambda>(klass, obj) m.
                         let key = (case map_of (super_class_after_class_hash_map s) klass of
                                      Some super_class \<Rightarrow> super_class | None \<Rightarrow> klass)
                         in if obj < key \<and> HasAddress s key then try_emplace_lowest key obj m
                            else m)
                      (class_after_obj_hash_map s) [],
               class_after_obj_hash_map := [],
               super_class_after_class_hash_map := []\<rparr>))"

text \<open>
  The first loop of \<open>MarkCompact::CompactMovingSpace<kMode>\<close>: the black pages,
  from the last one down. \<open>compact_black_page\<close> is what one iteration does with
  the page once the loop variables are stepped; the loop variables are \<open>idx\<close>,
  \<open>pre_compact_page\<close>, \<open>to_space_end\<close>, \<open>shadow_space_end\<close>, \<open>page\<close> and
  \<open>next_page_first_obj\<close>.
\<close>

definition compact_black_page ::
  "Mode \<Rightarrow> nat \<Rightarrow> nat \<Rightarrow> nat \<Rightarrow> nat \<Rightarrow> nat \<Rightarrow> MarkCompact \<Rightarrow> stop + MarkCompact" where
  "compact_black_page kMode idx pre_compact_page to_space_end page next_page_first_obj s =
     (let first_obj = first_objs_moving_space s idx;
          first_chunk_size = black_alloc_pages_first_chunk_size s idx
      in if first_obj \<noteq> 0 then
           bnd (DoPageCompactionWithStateChange kMode idx to_space_end page True
                  (SlideBlackPage first_obj next_page_first_obj first_chunk_size
                     pre_compact_page page (kMode = kCopyMode)) s)
             (\<lambda>(success, s1).
                if idx mod nat (kMinFromSpaceMadviseSize div int (gPageSize s1)) = 0 then
                  bnd (FreeFromSpacePages idx kMode 0 s1) (\<lambda>(freed, s2). Inr s2)
                else Inr s1)
         else Inr s)"

function compact_black_pages ::
  "Mode \<Rightarrow> nat \<Rightarrow> nat \<Rightarrow> nat \<Rightarrow> nat \<Rightarrow> nat \<Rightarrow> nat \<Rightarrow> MarkCompact
   \<Rightarrow> stop + (nat \<times> nat \<times> nat \<times> nat \<times> MarkCompact)" where
  "compact_black_pages kMode idx pre_compact_page to_space_end shadow_space_end page
       next_page_first_obj s =
     (if idx > moving_first_objs_count s then
        (let idx1 = idx - 1;
             pre_compact_page1 = pre_compact_page - gPageSize s;
             to_space_end1 = to_space_end - gPageSize s;
             shadow_space_end1 = (if kMode = kMinorFaultMode then shadow_space_end - gPageSize s
                                  else shadow_space_end);
             page1 = (if kMode = kMinorFaultMode then shadow_space_end1
                      else if kMode = kFallbackMode then to_space_end1 else page)
         in case compact_black_page kMode idx1 pre_compact_page1 to_space_end1 page1
                   next_page_first_obj s of
              Inl e \<Rightarrow> Inl e
            | Inr s3 \<Rightarrow>
                compact_black_pages kMode idx1 pre_compact_page1 to_space_end1 shadow_space_end1
                  page1 (first_objs_moving_space s idx1) s3)
      else Inr (pre_compact_page, to_space_end, shadow_space_end, page, s))"
  by pat_completeness auto
termination
  by (relation "measure (\<lambda>(kMode, idx, pcp, tse, sse, page, npfo, s). idx)") auto

declare compact_black_pages.simps [simp del]

text \<open>
  The second loop: the pages of the marked portion, from the last one down.
  \<open>compact_moving_page\<close> is one iteration after \<open>idx\<close>, \<open>to_space_end\<close> and
  \<open>shadow_space_end\<close> are stepped; it returns what \<open>FreeFromSpacePages\<close> returned.
  The loop variables are \<open>idx\<close>, \<open>to_space_end\<close>, \<open>shadow_space_end\<close> and
  \<open>end_idx_for_mapping\<close>; \<open>reserve_page\<close> is fixed.
\<close>

definition compact_moving_page ::
  "Mode \<Rightarrow> nat \<Rightarrow> nat \<Rightarrow> nat \<Rightarrow> nat \<Rightarrow> nat \<Rightarrow> MarkCompact \<Rightarrow> stop + (bool \<times> MarkCompact)" where
  "compact_moving_page kMode idx to_space_end shadow_space_end reserve_page end_idx_for_mapping s =
     (let take_reclaimable = (kMode = kCopyMode
                              \<and> cur_reclaimable_page s > last_reclaimable_page s);
          s0 = (if take_reclaimable
                then s\<lparr>cur_reclaimable_page := cur_reclaimable_page s - gPageSize s\<rparr> else s);
          page = (if kMode = kMinorFaultMode then shadow_space_end
                  else if kMode = kFallbackMode then to_space_end
                  else if take_reclaimable then cur_reclaimable_page s0 + from_space_slide_diff s0
                  else reserve_page);
          first_obj = first_objs_moving_space s0 idx
      in bnd (DoPageCompactionWithStateChange kMode idx to_space_end page (page = reserve_page)
                (CompactPage first_obj (pre_compact_offset_moving_space s0 idx) page
                   (kMode = kCopyMode)) s0)
           (\<lambda>(success, s1).
              bnd (if kMode = kCopyMode \<and> (\<not> success \<or> page = reserve_page)
                      \<and> end_idx_for_mapping - idx > 1
                   then bnd (MapMovingSpacePages (idx + 1) end_idx_for_mapping s1)
                            (\<lambda>(len, s2). Inr s2)
                   else Inr s1)
                (\<lambda>s3. FreeFromSpacePages idx kMode end_idx_for_mapping s3)))"

function compact_moving_pages ::
  "Mode \<Rightarrow> nat \<Rightarrow> nat \<Rightarrow> nat \<Rightarrow> nat \<Rightarrow> nat \<Rightarrow> MarkCompact
   \<Rightarrow> stop + (nat \<times> nat \<times> MarkCompact)" where
  "compact_moving_pages kMode idx to_space_end shadow_space_end reserve_page end_idx_for_mapping s =
     (if idx > 0 then
        (let idx1 = idx - 1;
             to_space_end1 = to_space_end - gPageSize s;
             shadow_space_end1 = (if kMode = kMinorFaultMode then shadow_space_end - gPageSize s
                                  else shadow_space_end)
         in case compact_moving_page kMode idx1 to_space_end1 shadow_space_end1 reserve_page
                   end_idx_for_mapping s of
              Inl e \<Rightarrow> Inl e
            | Inr (freed, s4) \<Rightarrow>
                compact_moving_pages kMode idx1 to_space_end1 shadow_space_end1
                  reserve_page (if freed then idx1 else end_idx_for_mapping) s4)
      else Inr (to_space_end, end_idx_for_mapping, s))"
  by pat_completeness auto
termination
  by (relation "measure (\<lambda>(kMode, idx, tse, sse, rp, e, s). idx)") auto

declare compact_moving_pages.simps [simp del]

text \<open>\<open>MarkCompact::CompactMovingSpace<kMode>(page)\<close>.\<close>

definition CompactMovingSpace :: "Mode \<Rightarrow> nat \<Rightarrow> MarkCompact \<Rightarrow> stop + MarkCompact" where
  "CompactMovingSpace kMode page s =
     (let page_status_arr_len = moving_first_objs_count s + black_page_count s;
          idx = page_status_arr_len;
          to_space_end = bump_pointer_space_Begin s + page_status_arr_len * gPageSize s;
          shadow_space_end = (if kMode = kMinorFaultMode
                              then shadow_to_space_map_Begin s + page_status_arr_len * gPageSize s
                              else 0);
          pre_compact_page = black_allocations_begin s + black_page_count s * gPageSize s
      in bnd (UpdateClassAfterObjMap s) (\<lambda>s1.
           let s2 = s1\<lparr>last_reclaimed_page := pre_compact_page,
                       last_reclaimable_page := pre_compact_page,
                       cur_reclaimable_page := pre_compact_page,
                       last_checked_reclaim_page_idx := idx,
                       class_after_obj_iter := rev (class_after_obj_ordered_map s1)\<rparr>
           in bnd (compact_black_pages kMode idx pre_compact_page to_space_end shadow_space_end
                     page 0 s2)
                (\<lambda>(pre_compact_page1, to_space_end1, shadow_space_end1, page1, s3).
                   bnd (compact_moving_pages kMode (moving_first_objs_count s3) to_space_end1
                          shadow_space_end1 page1 (moving_first_objs_count s3) s3)
                     (\<lambda>(to_space_end2, end_idx_for_mapping, s4).
                        if kMode = kCopyMode \<and> end_idx_for_mapping > 0 then
                          bnd (MapMovingSpacePages 0 end_idx_for_mapping s4)
                              (\<lambda>(len, s5). Inr s5)
                        else Inr s4))))"

subsection \<open>Resolving a fault on a moving-space page\<close>

text \<open>The two loops of the path for a page without a first object.\<close>

function claim_zero_pages :: "nat \<Rightarrow> nat \<Rightarrow> nat \<Rightarrow> MarkCompact \<Rightarrow> nat \<times> MarkCompact" where
  "claim_zero_pages idx end_idx len s =
     (if idx < end_idx then
        (if moving_pages_status s idx \<noteq> (kUnprocessed, 0) then (len, s)
         else claim_zero_pages (idx + 1) end_idx (len + gPageSize s)
                (set_status idx (kProcessedAndMapping, 0) s))
      else (len, s))"
  by pat_completeness auto
termination
  by (relation "measure (\<lambda>(idx, end_idx, len, s). end_idx - idx)") auto

declare claim_zero_pages.simps [simp del]

function mark_zero_pages :: "nat \<Rightarrow> nat \<Rightarrow> nat \<Rightarrow> MarkCompact \<Rightarrow> stop + MarkCompact" where
  "mark_zero_pages len idx length0 s =
     (if len < length0 then
        (if gPageSize s = 0 then Inl Undefined
         else mark_zero_pages (len + gPageSize s) (idx + 1) length0
                (set_status idx (kProcessedAndMapped, 0) s))
      else Inr s)"
  by pat_completeness auto
termination
  by (relation "measure (\<lambda>(len, idx, length0, s). length0 - len)")
     (auto simp: set_status_def emit_def)

declare mark_zero_pages.simps [simp del]

text \<open>
  The \<open>while (true)\<close> loop of \<open>ConcurrentlyProcessMovingPage\<close>, on the status
  word last read. A thread that finds another party at work either returns
  (without SIGBUS delivery) or backs off and reads again; with no other thread
  running, the second is \<open>Waiting\<close>. The in-progress counter is raised for the
  scope of the last branch. A lost compare-and-swap leaves the word it found in
  \<open>raw_state\<close>; a page still \<open>kProcessed\<close> after \<open>MapMovingSpacePages\<close> returned
  less than a page was not touched by it, and the thread keeps retrying.
  \<open>mutator_compact_page\<close> is the branch of the thread that won the
  compare-and-swap on \<open>kUnprocessed\<close>.
\<close>

definition mutator_compact_page ::
  "Mode \<Rightarrow> nat \<Rightarrow> nat \<Rightarrow> nat \<Rightarrow> nat \<Rightarrow> thread \<Rightarrow> MarkCompact
   \<Rightarrow> stop + (thread \<times> MarkCompact)" where
  "mutator_compact_page kMode fault_page buf page_idx first_obj self s0 =
     (let s1 = set_status page_idx (kMutatorProcessing, 0) s0;
          idx = compaction_buffer_counter s1 mod 2 ^ 16;
          fresh = (kMode \<noteq> kMinorFaultMode \<and> buf = 0);
          s2 = (if fresh then s1\<lparr>compaction_buffer_counter := (idx + 1) mod 2 ^ 16\<rparr>
                else s1);
          buf1 = (if kMode = kMinorFaultMode
                  then shadow_to_space_map_Begin s2 + page_idx * gPageSize s2
                  else if fresh then compaction_buffers_map_Begin s2 + idx * gPageSize s2
                  else buf);
          self1 = (if fresh then self\<lparr>thread_local_gc_buffer := buf1\<rparr> else self)
      in if fresh \<and> \<not> idx \<le> 2048 then Inl CheckFailed
         else
           let s3 = emit (Compacting page_idx) s2;
               s4 = (if fault_page < post_compact_end s3 then
                       CompactPage first_obj (pre_compact_offset_moving_space s3 page_idx)
                         buf1 (kMode = kCopyMode) s3
                     else
                       let pre_compact_page =
                             black_allocations_begin s3 + (fault_page - post_compact_end s3);
                           first_chunk_size = black_alloc_pages_first_chunk_size s3 page_idx;
                           next_page_first_obj =
                             (if page_idx + 1 < moving_first_objs_count s3 + black_page_count s3
                              then first_objs_moving_space s3 (page_idx + 1) else 0)
                       in SlideBlackPage first_obj next_page_first_obj first_chunk_size
                            pre_compact_page buf1 (kMode = kCopyMode) s3);
               s5 = set_status page_idx (kProcessedAndMapping, 0) s4
           in if kMode = kCopyMode then
                bnd (CopyIoctl fault_page buf1 (gPageSize s5) s5)
                  (\<lambda>s6. Inr (self1,
                               (set_status page_idx (kProcessedAndMapped, 0) s6)
                                 \<lparr>compaction_in_progress_count :=
                                    compaction_in_progress_count s6 - 1\<rparr>))
              else Inl Unreachable)"

function process_moving_page ::
  "Mode \<Rightarrow> nat \<Rightarrow> nat \<Rightarrow> nat \<Rightarrow> nat \<Rightarrow> status \<Rightarrow> thread \<Rightarrow> MarkCompact
   \<Rightarrow> stop + (thread \<times> MarkCompact)" where
  "process_moving_page kMode fault_page buf page_idx first_obj raw_state self s =
     (let state = fst raw_state
      in if state = kProcessing \<or> state = kMutatorProcessing
            \<or> state = kProcessingAndMapping \<or> state = kProcessedAndMapping then
           (if \<not> use_uffd_sigbus s then Inr (self, s) else Inl Waiting)
         else if state = kProcessedAndMapped then Inr (self, s)
         else
           let s0 = s\<lparr>compaction_in_progress_count := compaction_in_progress_count s + 1\<rparr>
           in if state = kUnprocessed \<and> moving_pages_status s0 page_idx = raw_state then
                mutator_compact_page kMode fault_page buf page_idx first_obj self s0
              else
                let raw0 = (if state = kUnprocessed then moving_pages_status s0 page_idx
                            else raw_state)
                in if fst raw0 = kProcessed then
                     (case MapMovingSpacePages page_idx
                             (moving_first_objs_count s0 + black_page_count s0) s0 of
                        Inl e \<Rightarrow> Inl e
                      | Inr (n, s1) \<Rightarrow>
                          let s2 = s1\<lparr>compaction_in_progress_count :=
                                          compaction_in_progress_count s1 - 1\<rparr>
                          in if n \<ge> gPageSize s1 then Inr (self, s2)
                             else
                               let raw1 = moving_pages_status s2 page_idx
                               in if fst raw1 = kProcessed then Inl Waiting
                                  else process_moving_page kMode fault_page buf page_idx first_obj
                                         raw1 self s2)
                   else process_moving_page kMode fault_page buf page_idx first_obj raw0 self s)"
  by pat_completeness auto
termination
  by (relation "measure (\<lambda>(kMode, fault_page, buf, page_idx, first_obj, raw_state, self, s).
                   if raw_state \<noteq> moving_pages_status s page_idx then 2
                   else if fst raw_state = kProcessed then 1 else 0)")
     (auto split: if_splits intro: PageState.exhaust)

declare process_moving_page.simps [simp del]

text \<open>\<open>MarkCompact::ConcurrentlyProcessMovingPage<kMode>\<close> for the thread \<open>self\<close>.\<close>

definition ConcurrentlyProcessMovingPage ::
  "Mode \<Rightarrow> nat \<Rightarrow> nat \<Rightarrow> nat \<Rightarrow> thread \<Rightarrow> MarkCompact \<Rightarrow> stop + (thread \<times> MarkCompact)" where
  "ConcurrentlyProcessMovingPage kMode fault_page buf nr_moving_space_used_pages self s =
     (let unused_space_begin = bump_pointer_space_Begin s + nr_moving_space_used_pages * gPageSize s
      in if kMode = kCopyMode \<and> fault_page \<ge> unused_space_begin then
           bnd (ZeropageIoctl fault_page (gPageSize s) True True s) (\<lambda>s1. Inr (self, s1))
         else
           let page_idx = DivideByPageSize s
                            (size_t (int fault_page - int (bump_pointer_space_Begin s)));
               first_obj = first_objs_moving_space s page_idx
           in if first_obj = 0 then
                let end0 = AlignDown (tlab_end self) (gPageSize s);
                    end1 = (if fault_page < tlab_start self \<or> fault_page \<ge> end0
                            then fault_page + gPageSize s else end0);
                    end_idx = page_idx + DivideByPageSize s (end1 - fault_page);
                    (len, s1) = claim_zero_pages page_idx end_idx 0 s
                in if len > 0 then
                     bnd (ZeropageIoctl fault_page len False True s1)
                         (\<lambda>s2. bnd (mark_zero_pages 0 page_idx len s2) (\<lambda>s3. Inr (self, s3)))
                   else Inr (self, s1)
              else
                process_moving_page kMode fault_page buf page_idx first_obj
                  (moving_pages_status s page_idx) self s)"

subsection \<open>The SIGBUS handler\<close>

record siginfo =
  si_code :: int
  si_addr :: nat

definition BUS_ADRERR :: int where
  "BUS_ADRERR = 2"

definition in_linear_alloc :: "MarkCompact \<Rightarrow> nat \<Rightarrow> bool" where
  "in_linear_alloc s fault_page =
     list_ex (\<lambda>(begin, end). begin \<le> fault_page \<and> end > fault_page) (linear_alloc_spaces_data s)"

text \<open>
  \<open>MarkCompact::SigbusHandler\<close> on the thread \<open>self\<close>. The scoped counter is taken
  first: it is incremented unless the compaction-done bit is set, and released
  on return. \<open>linear_alloc_page\<close> stands for
  \<open>ConcurrentlyProcessLinearAllocPage<kMode>\<close>, whose work on arenas is outside
  this model.
\<close>

definition SigbusHandler ::
  "(Mode \<Rightarrow> nat \<Rightarrow> bool \<Rightarrow> MarkCompact \<Rightarrow> stop + MarkCompact) \<Rightarrow> siginfo \<Rightarrow> thread \<Rightarrow> MarkCompact
   \<Rightarrow> stop + (bool \<times> thread \<times> MarkCompact)" where
  "SigbusHandler linear_alloc_page info self s =
     (if si_code info \<noteq> BUS_ADRERR then Inr (False, self, s)
      else
        let prev = sigbus_in_progress_count s;
            compaction_done = (and prev (kSigbusCounterCompactionDoneMask s) \<noteq> 0);
            s1 = (if compaction_done then s else s\<lparr>sigbus_in_progress_count := prev + 1\<rparr>);
            release = (\<lambda>t. if compaction_done then t
                            else t\<lparr>sigbus_in_progress_count := sigbus_in_progress_count t - 1\<rparr>);
            fault_page = AlignDown (si_addr info) (gPageSize s1)
        in if \<not> compaction_done then
             (if HasAddress s1 fault_page then
                let nr_moving_space_used_pages = moving_first_objs_count s1 + black_page_count s1
                in bnd (if minor_fault_initialized s1 then
                          ConcurrentlyProcessMovingPage kMinorFaultMode fault_page 0
                            nr_moving_space_used_pages self s1
                        else
                          ConcurrentlyProcessMovingPage kCopyMode fault_page
                            (thread_local_gc_buffer self) nr_moving_space_used_pages self s1)
                       (\<lambda>(self1, s2). Inr (True, self1, release s2))
              else if in_linear_alloc s1 fault_page then
                bnd (if minor_fault_initialized s1 then linear_alloc_page kMinorFaultMode fault_page False s1
                     else linear_alloc_page kCopyMode fault_page False s1)
                    (\<lambda>s2. Inr (True, self, release s2))
              else Inr (False, self, release s1))
           else Inr (HasAddress s1 fault_page \<or> in_linear_alloc s1 fault_page, self, release s1))"

subsection \<open>The planner: prefix sum of the chunk histogram\<close>

text \<open>
  \<open>std::exclusive_scan(first, first + n, first, init)\<close> in place over the
  \<open>uint32_t\<close> array \<open>v\<close>, starting at index \<open>i\<close>.
\<close>

fun exclusive_scan :: "(nat \<Rightarrow> nat) \<Rightarrow> nat \<Rightarrow> nat \<Rightarrow> nat \<Rightarrow> (nat \<Rightarrow> nat)" where
  "exclusive_scan v i 0 init = v"
| "exclusive_scan v i (Suc n) init = exclusive_scan (v(i := init)) (Suc i) n (u32 (init + v i))"

text \<open>
  \<open>MarkCompact::PrepareForCompaction\<close>, from the point where the first-object
  tables are built: the prefix sum, the live-byte total, the new end of the
  space and the two \<open>CHECK\<close>s on it. The result also carries the local \<open>total\<close>.
\<close>

definition PrepareForCompaction :: "MarkCompact \<Rightarrow> stop + (MarkCompact \<times> nat)" where
  "PrepareForCompaction mc =
    (let space_begin = bump_pointer_space_Begin mc;
         vector_len0 = (black_allocations_begin mc - space_begin) div kOffsetChunkSize mc;
         vector_len = (if vector_len0 < vector_length mc then vector_len0 + 1 else vector_len0);
         total0 = (if vector_len0 < vector_length mc then 0
                   else chunk_info_vec mc (vector_len0 - 1));
         vec = exclusive_scan (chunk_info_vec mc) 0 vector_len 0;
         total = u32 (total0 + vec (vector_len - 1));
         pce = AlignUp (space_begin + total) (gPageSize mc)
     in if pce \<noteq> space_begin + moving_first_objs_count mc * gPageSize mc then Inl CheckFailed
        else
          let diff = int (black_allocations_begin mc) - int pce
          in if \<not> 0 \<le> diff then Inl CheckFailed
             else Inr (mc\<lparr>chunk_info_vec := vec, post_compact_end := pce,
                          black_objs_slide_diff := diff\<rparr>, total))"

text \<open>
  Names for what the planner's theorems speak about: the number of chunks of the
  marked portion (\<open>vector_len\<close> on entry), the number of entries the scan runs
  over, the live bytes of the first \<open>n\<close> chunks, and what a completed call leaves:
  the last entry the scan stored, \<open>total\<close>, and the new end of the space.
\<close>

definition marked_chunks :: "MarkCompact \<Rightarrow> nat" where
  "marked_chunks mc =
     (black_allocations_begin mc - bump_pointer_space_Begin mc) div kOffsetChunkSize mc"

definition scanned_chunks :: "MarkCompact \<Rightarrow> nat" where
  "scanned_chunks mc =
     (if marked_chunks mc < vector_length mc then marked_chunks mc + 1 else marked_chunks mc)"

definition live_bytes :: "(nat \<Rightarrow> nat) \<Rightarrow> nat \<Rightarrow> nat" where
  "live_bytes H n = (\<Sum>j<n. H j)"

definition planned :: "MarkCompact \<Rightarrow> stop + (nat \<times> nat \<times> nat)" where
  "planned mc =
     (case PrepareForCompaction mc of
        Inl e \<Rightarrow> Inl e
      | Inr (mc', tot) \<Rightarrow>
          Inr (chunk_info_vec mc' (scanned_chunks mc - 1), tot, post_compact_end mc'))"

subsection \<open>Vocabulary of the theorems\<close>

text \<open>Classes of recorded events.\<close>

fun is_compaction :: "event \<Rightarrow> bool" where
  "is_compaction (Compacting i) = True"
| "is_compaction (CallCompactPage a b c d) = True"
| "is_compaction (CallSlideBlackPage a b c d e f) = True"
| "is_compaction e = False"

fun is_publish_call :: "event \<Rightarrow> bool" where
  "is_publish_call (CallZeropageIoctl a b c d) = True"
| "is_publish_call (CallCopyIoctl a b c) = True"
| "is_publish_call e = False"

fun is_ioctl :: "event \<Rightarrow> bool" where
  "is_ioctl (Ioctl r) = True"
| "is_ioctl e = False"

text \<open>
  For a fault on a page without a first object: the index of the faulting page,
  the end index of the range the handler tries to claim (the rest of the
  thread's TLAB, or the one page), and the number of consecutive pages from the
  faulting one, below that end, whose status word is \<open>kUnprocessed\<close>.
\<close>

definition unprocessed_run :: "MarkCompact \<Rightarrow> nat \<Rightarrow> nat \<Rightarrow> nat" where
  "unprocessed_run s i e =
     length (takeWhile (\<lambda>j. moving_pages_status s j = (kUnprocessed, 0)) [i..<e])"

definition page_index :: "MarkCompact \<Rightarrow> nat \<Rightarrow> nat" where
  "page_index s fault_page =
     DivideByPageSize s (size_t (int fault_page - int (bump_pointer_space_Begin s)))"

definition zero_run_end :: "MarkCompact \<Rightarrow> thread \<Rightarrow> nat \<Rightarrow> nat" where
  "zero_run_end s self fault_page =
     (let end0 = AlignDown (tlab_end self) (gPageSize s);
          end1 = (if fault_page < tlab_start self \<or> fault_page \<ge> end0
                  then fault_page + gPageSize s else end0)
      in page_index s fault_page + DivideByPageSize s (end1 - fault_page))"

definition zero_run :: "MarkCompact \<Rightarrow> thread \<Rightarrow> nat \<Rightarrow> nat" where
  "zero_run s self fault_page =
     unprocessed_run s (page_index s fault_page) (zero_run_end s self fault_page)"

text \<open>For the SIGBUS handler: the page of the faulting address, and the done bit.\<close>

definition fault_page_of :: "MarkCompact \<Rightarrow> siginfo \<Rightarrow> nat" where
  "fault_page_of s info = AlignDown (si_addr info) (gPageSize s)"

definition compaction_done :: "MarkCompact \<Rightarrow> bool" where
  "compaction_done s =
     (and (sigbus_in_progress_count s) (kSigbusCounterCompactionDoneMask s) \<noteq> 0)"

text \<open>
  The order the page states are claimed to advance in: \<open>kUnprocessed\<close>, then
  \<open>kProcessing\<close> or \<open>kMutatorProcessing\<close>, then \<open>kProcessingAndMapping\<close>,
  \<open>kProcessed\<close>, \<open>kProcessedAndMapping\<close>, \<open>kProcessedAndMapped\<close>. A recorded
  state change is forward when it moves strictly up in this order; a rewind is
  the store of \<open>kProcessed\<close> over \<open>kProcessedAndMapping\<close>.
\<close>

fun stage :: "PageState \<Rightarrow> nat" where
  "stage kUnprocessed = 0"
| "stage kProcessing = 1"
| "stage kMutatorProcessing = 1"
| "stage kProcessingAndMapping = 2"
| "stage kProcessed = 3"
| "stage kProcessedAndMapping = 4"
| "stage kProcessedAndMapped = 5"

fun forward_event :: "event \<Rightarrow> bool" where
  "forward_event (StateChange i a b) = (stage a < stage b)"
| "forward_event e = True"


text \<open>The destination pages whose compaction function was invoked, in order.\<close>

fun compacted :: "event list \<Rightarrow> nat list" where
  "compacted [] = []"
| "compacted (Compacting i # es) = i # compacted es"
| "compacted (e # es) = compacted es"

text \<open>
  \<open>frame s\<close> blanks what the operations on pages change: the page states, the
  kernel's pending replies, the record of events, the in-progress and buffer
  counters, the class-after-object maps and the recycling cursor. \<open>evolves s s' evs\<close>: \<open>s'\<close> differs from \<open>s\<close>
  in those fields only, and its record of events is that of \<open>s\<close> followed by
  \<open>evs\<close>.
\<close>

definition frame :: "MarkCompact \<Rightarrow> MarkCompact" where
  "frame s = s\<lparr>moving_pages_status := (\<lambda>_. (kUnprocessed, 0)), kernel := [], events := [],
              compaction_in_progress_count := 0, compaction_buffer_counter := 0,
              class_after_obj_hash_map := [], super_class_after_class_hash_map := [],
              class_after_obj_ordered_map := [],
              class_after_obj_iter := [], last_reclaimed_page := 0, cur_reclaimable_page := 0,
              last_reclaimable_page := 0, last_checked_reclaim_page_idx := 0\<rparr>"

definition evolves :: "MarkCompact \<Rightarrow> MarkCompact \<Rightarrow> event list \<Rightarrow> bool" where
  "evolves s s' evs = (frame s' = frame s \<and> events s' = events s @ evs)"

definition processed_run :: "MarkCompact \<Rightarrow> nat \<Rightarrow> nat \<Rightarrow> nat" where
  "processed_run s i e =
     length (takeWhile (\<lambda>j. fst (moving_pages_status s j) = kProcessed) [i..<e])"

text \<open>What a run from \<open>s\<close> to \<open>s'\<close> added to the record of events.\<close>

definition new_events :: "MarkCompact \<Rightarrow> MarkCompact \<Rightarrow> event list" where
  "new_events s s' = drop (length (events s)) (events s')"

fun quiet :: "event \<Rightarrow> bool" where
  "quiet (Ioctl r) = True"
| "quiet (Madvise a b c) = True"
| "quiet (CallZeropageIoctl a b c d) = True"
| "quiet (CallCopyIoctl a b c) = True"
| "quiet e = False"

text \<open>
  For \<open>MapProcessedPages\<close>: the number of consecutive \<open>kProcessed\<close> entries of a
  page-state array from index \<open>i\<close>, below \<open>e\<close>; the number of pages the function
  asks the kernel to map (with the first page when \<open>kFirstPageMapping\<close>); and
  what the \<open>DCHECK\<close>s of the function say of the kernel's answer to a request for
  \<open>n\<close> pages of \<open>g\<close> bytes: on success all bytes are mapped, on \<open>EAGAIN\<close> a
  page-aligned count below the request (at least the first page when
  \<open>kFirstPageMapping\<close>), on another error a negative count.
\<close>

definition processed_pages :: "(nat \<Rightarrow> PageState) \<Rightarrow> nat \<Rightarrow> nat \<Rightarrow> nat" where
  "processed_pages arr i e = length (takeWhile (\<lambda>j. arr j = kProcessed) [i..<e])"

definition claimed_pages :: "bool \<Rightarrow> (nat \<Rightarrow> PageState) \<Rightarrow> nat \<Rightarrow> nat \<Rightarrow> nat" where
  "claimed_pages kFirst arr idx e =
     (if kFirst then 1 else 0) + processed_pages arr (if kFirst then idx + 1 else idx) e"


text \<open>
  A kernel reply that failed with \<open>EAGAIN\<close> after \<open>b\<close> bytes, and the requests a
  copy or zeropage loop is expected to issue when the kernel answers \<open>EAGAIN\<close>
  after \<open>bs\<close> bytes in turn: each on what remains of the range.
\<close>

definition eagain :: "nat \<Rightarrow> reply" where
  "eagain b = \<lparr>r_ret = - 1, r_errno = EAGAIN, r_bytes = int b\<rparr>"



subsection \<open>Concrete collector states\<close>

text \<open>
  A collector with 4 KiB pages, 8-byte alignment and 512-byte chunks, an empty
  heap and nothing in flight. The examples below are updates of it.
\<close>

definition mc0 :: MarkCompact where
  "mc0 = \<lparr>gPageSize = 4096, kAlignment = 8, kOffsetChunkSize = 512, kBitsPerVectorWord = 64,
     bump_pointer_space_Begin = 0, moving_space_begin = 0, moving_space_end = 0,
     from_space_begin = 0, from_space_slide_diff = 0, shadow_to_space_map_Begin = 0,
     compaction_buffers_map_Begin = 0, black_allocations_begin = 0, post_compact_end = 0,
     black_objs_slide_diff = 0, vector_length = 0, chunk_info_vec = (\<lambda>_. 0),
     live_words_bitmap = (\<lambda>_. False), live_words_bitmap_Begin = 0, freed_objects = 0,
     moving_first_objs_count = 0, black_page_count = 0, first_objs_moving_space = (\<lambda>_. 0),
     pre_compact_offset_moving_space = (\<lambda>_. 0), black_alloc_pages_first_chunk_size = (\<lambda>_. 0),
     moving_pages_status = (\<lambda>_. (kUnprocessed, 0)), last_reclaimed_page = 0,
     last_reclaimable_page = 0, cur_reclaimable_page = 0, last_checked_reclaim_page_idx = 0,
     class_after_obj_hash_map = [], super_class_after_class_hash_map = [],
     class_after_obj_ordered_map = [], class_after_obj_iter = [], SizeOf = (\<lambda>_. 0),
     minor_fault_initialized = False, use_uffd_sigbus = True, linear_alloc_spaces_data = [],
     sigbus_in_progress_count = 0, kSigbusCounterCompactionDoneMask = 2147483648,
     compaction_in_progress_count = 0, compaction_buffer_counter = 1, kernel = [], events = []\<rparr>"

text \<open>
  One page of marked space (eight chunks) with 8 live bytes in chunk 0 and 16 in
  chunk 7. In \<open>full_space\<close> the vector has exactly eight entries; in
  \<open>spare_space\<close> it has sixteen.
\<close>

definition full_space :: MarkCompact where
  "full_space = mc0\<lparr>black_allocations_begin := 4096, vector_length := 8,
     chunk_info_vec := (\<lambda>_. 0)(0 := 8, 7 := 16), moving_first_objs_count := 1\<rparr>"

definition spare_space :: MarkCompact where
  "spare_space = mc0\<lparr>black_allocations_begin := 4096, vector_length := 16,
     chunk_info_vec := (\<lambda>_. 0)(0 := 8, 7 := 16), moving_first_objs_count := 1\<rparr>"

text \<open>A kernel reply reporting success.\<close>

definition ok :: reply where
  "ok = \<lparr>r_ret = 0, r_errno = EOTHER, r_bytes = 0\<rparr>"

text \<open>
  Five black pages; pages 0 and 1 have a first object, pages 2 to 4 have none,
  and page 4 is already mapped. A thread whose TLAB spans pages 1 to 4 faults on
  page 2. In \<open>busy_pages\<close> another thread is publishing page 2.
\<close>

definition tlab_pages :: MarkCompact where
  "tlab_pages = mc0\<lparr>moving_space_end := 40960, black_page_count := 5,
      first_objs_moving_space := (\<lambda>_. 0)(0 := 64, 1 := 64),
      moving_pages_status := (\<lambda>_. (kUnprocessed, 0))(4 := (kProcessedAndMapped, 0)),
      kernel := [ok]\<rparr>"


definition tlab_thread :: thread where
  "tlab_thread = \<lparr>tlab_start = 4096, tlab_end = 24000, thread_local_gc_buffer = 0\<rparr>"

text \<open>
  A collector whose compaction is finished (the done bit of the SIGBUS counter is
  set), with a moving space and one linear-alloc space; a stand-in for the
  linear-alloc page processing that does nothing.
\<close>

definition done_state :: MarkCompact where
  "done_state = mc0\<lparr>moving_space_begin := 4096, moving_space_end := 40960,
      linear_alloc_spaces_data := [(81920, 90112)],
      sigbus_in_progress_count := 2147483648\<rparr>"

definition idle_thread :: thread where
  "idle_thread = \<lparr>tlab_start = 0, tlab_end = 0, thread_local_gc_buffer = 0\<rparr>"

definition no_linear_alloc_work :: "Mode \<Rightarrow> nat \<Rightarrow> bool \<Rightarrow> MarkCompact \<Rightarrow> stop + MarkCompact" where
  "no_linear_alloc_work kMode fault_page is_minor_fault s = Inr s"

text \<open>
  Two pages of marked space, each with a first object, no black pages, and two
  successful kernel replies pending. In \<open>fault_then_collect\<close> a mutator faults
  on page 0 before the collector thread starts its pass.
\<close>

definition two_pages :: MarkCompact where
  "two_pages = mc0\<lparr>moving_space_end := 16384, black_allocations_begin := 8192,
      post_compact_end := 8192, moving_first_objs_count := 2,
      first_objs_moving_space := (\<lambda>_. 0)(0 := 8, 1 := 4104),
      pre_compact_offset_moving_space := (\<lambda>_. 0)(0 := 1, 1 := 513),
      from_space_begin := 1048576, from_space_slide_diff := 1048576,
      compaction_buffers_map_Begin := 4194304, kernel := [ok, ok]\<rparr>"

definition fault_then_collect :: "stop + MarkCompact" where
  "fault_then_collect =
     bnd (ConcurrentlyProcessMovingPage kCopyMode 0 0 2 idle_thread two_pages)
       (\<lambda>(self, s). CompactMovingSpace kCopyMode 2097152 s)"

text \<open>
  The same two pages of marked space followed by one black page, with three
  successful kernel replies pending; \<open>collect_three\<close> is the collector thread's
  pass over them. \<open>fault_only\<close> is a mutator's fault on page 0 of \<open>two_pages\<close>.
\<close>

definition three_pages :: MarkCompact where
  "three_pages = mc0\<lparr>moving_space_end := 16384, black_allocations_begin := 8192,
      post_compact_end := 8192, moving_first_objs_count := 2, black_page_count := 1,
      first_objs_moving_space := (\<lambda>_. 0)(0 := 8, 1 := 4104, 2 := 8200),
      pre_compact_offset_moving_space := (\<lambda>_. 0)(0 := 1, 1 := 513),
      black_alloc_pages_first_chunk_size := (\<lambda>_. 0)(2 := 64),
      from_space_begin := 1048576, from_space_slide_diff := 1048576,
      compaction_buffers_map_Begin := 4194304, kernel := [ok, ok, ok]\<rparr>"

definition collect_three :: "stop + MarkCompact" where
  "collect_three = CompactMovingSpace kCopyMode 2097152 three_pages"

definition fault_only :: "stop + (thread \<times> MarkCompact)" where
  "fault_only = ConcurrentlyProcessMovingPage kCopyMode 0 0 2 idle_thread two_pages"

text \<open>
  A page-state array of a linear-alloc space with three processed pages, and
  collectors whose kernel answers the next request with \<open>EAGAIN\<close> after one page
  (then success), with \<open>ENOENT\<close>, and with \<open>EAGAIN\<close> twice (then success).
  \<open>processed_page\<close> has page 0 of the moving space compacted into the from-space
  at offset 8192 and not yet mapped.
\<close>

definition linear_arr :: "nat \<Rightarrow> PageState" where
  "linear_arr = (\<lambda>_. kUnprocessed)(0 := kProcessed, 1 := kProcessed, 2 := kProcessed)"


definition eagain_kernel :: MarkCompact where
  "eagain_kernel = mc0\<lparr>kernel := [eagain 4096, ok]\<rparr>"


definition retry_kernel :: MarkCompact where
  "retry_kernel = mc0\<lparr>kernel := [eagain 4096, eagain 4096, ok]\<rparr>"





section \<open>Proofs\<close>

subsection \<open>Arithmetic helpers\<close>

lemma u32_u32_add: "u32 (u32 a + b) = u32 (a + b)"
  by (simp add: u32_def mod_add_left_eq)

lemma u32_less: "n < 2 ^ 32 \<Longrightarrow> u32 n = n"
  by (simp add: u32_def)

lemma u32_bound: "u32 n < 2 ^ 32"
  by (simp add: u32_def)

lemmas align_defs = AlignUp_def RoundUp_def AlignDown_def u32_def

lemma AlignDown_dvd: "n dvd AlignDown x n"
  by (simp add: AlignDown_def minus_mod_eq_mult_div)

lemma AlignDown_le: "AlignDown x n \<le> x"
  by (simp add: AlignDown_def)

lemma AlignDown_gt: "0 < n \<Longrightarrow> x < AlignDown x n + n"
proof -
  assume "0 < n"
  then have "x mod n < n" by simp
  moreover have "x mod n \<le> x" by simp
  ultimately show ?thesis unfolding AlignDown_def by linarith
qed

lemma AlignUp_ge: "0 < n \<Longrightarrow> x \<le> AlignUp x n"
  using AlignDown_gt [of n "x + n - 1"] by (simp add: AlignUp_def RoundUp_def)

lemma AlignUp_less: "0 < n \<Longrightarrow> AlignUp x n < x + n"
  using AlignDown_le [of "x + n - 1" n] by (simp add: AlignUp_def RoundUp_def)

lemma AlignUp_dvd: "n dvd AlignUp x n"
  by (simp add: AlignUp_def RoundUp_def AlignDown_dvd)

lemma AlignUp_aligned: "0 < n \<Longrightarrow> n dvd x \<Longrightarrow> AlignUp x n = x"
proof -
  assume n: "0 < n" and d: "n dvd x"
  from d obtain k where x: "x = n * k" ..
  have "(n * k + n - 1) mod n = n - 1"
  proof -
    have e: "n * k + n - 1 = (n - 1) + n * k" using n by (cases n) simp_all
    have "(n * k + n - 1) mod n = (n - 1) mod n" unfolding e by simp
    also have "\<dots> = n - 1" using n by simp
    finally show ?thesis .
  qed
  then show ?thesis
    using n by (simp add: AlignUp_def RoundUp_def AlignDown_def x)
qed

subsection \<open>The prefix sum\<close>

lemma exclusive_scan_closed:
  "init < 2 ^ 32 \<Longrightarrow>
   exclusive_scan v i n init k =
     (if i \<le> k \<and> k < i + n then u32 (init + (\<Sum>j = i..<k. v j)) else v k)"
proof (induction n arbitrary: v i init k)
  case 0
  then show ?case by simp
next
  case (Suc n)
  have b: "u32 (init + v i) < 2 ^ 32" by (rule u32_bound)
  have s: "(\<Sum>j = Suc i..<k. (v(i := init)) j) = (\<Sum>j = Suc i..<k. v j)"
    by (rule sum.cong) auto
  show ?case
  proof (cases "k = i")
    case True
    with Suc.prems show ?thesis
      by (simp add: Suc.IH [OF b] u32_less)
  next
    case False
    show ?thesis
    proof (cases "Suc i \<le> k \<and> k < Suc i + n")
      case True
      then have "(\<Sum>j = i..<k. v j) = v i + (\<Sum>j = Suc i..<k. v j)"
        by (simp add: sum.atLeast_Suc_lessThan)
      with True False show ?thesis
        by (simp add: Suc.IH [OF b] s u32_u32_add add.assoc)
    next
      case False
      with \<open>k \<noteq> i\<close> show ?thesis
        by (auto simp add: Suc.IH [OF b])
    qed
  qed
qed

lemma exclusive_scan_0:
  "exclusive_scan v 0 n 0 k = (if k < n then u32 (\<Sum>j<k. v j) else v k)"
  using exclusive_scan_closed [of 0 v 0 n k] by (simp add: atLeast0LessThan)

lemma exclusive_scan_numeral:
  "exclusive_scan v i (numeral n) init =
     exclusive_scan (v(i := init)) (Suc i) (pred_numeral n) (u32 (init + v i))"
  by (simp add: numeral_eq_Suc)

lemma PrepareForCompaction_Inr:
  assumes "PrepareForCompaction mc = Inr (mc', tot)"
  shows "chunk_info_vec mc' = exclusive_scan (chunk_info_vec mc) 0 (scanned_chunks mc) 0"
    and "tot = u32 ((if marked_chunks mc < vector_length mc then 0
                       else chunk_info_vec mc (marked_chunks mc - 1))
                      + chunk_info_vec mc' (scanned_chunks mc - 1))"
    and "post_compact_end mc' = AlignUp (bump_pointer_space_Begin mc + tot) (gPageSize mc)"
    and "post_compact_end mc' \<le> black_allocations_begin mc"
    and "post_compact_end mc' = bump_pointer_space_Begin mc + moving_first_objs_count mc * gPageSize mc"
    and "black_allocations_begin mc' = black_allocations_begin mc"
  using assms
  by (auto simp add: PrepareForCompaction_def Let_def marked_chunks_def scanned_chunks_def
           simp del: exclusive_scan.simps of_nat_add of_nat_mult
           simp flip: of_nat_add of_nat_mult split: if_splits)

lemma PrepareForCompaction_total:
  assumes "PrepareForCompaction mc = Inr (mc', tot)" and "0 < vector_length mc"
  shows "chunk_info_vec mc' i =
           (if i < scanned_chunks mc then u32 (live_bytes (chunk_info_vec mc) i)
            else chunk_info_vec mc i)"
    and "tot = u32 (live_bytes (chunk_info_vec mc) (marked_chunks mc))"
proof -
  let ?H = "chunk_info_vec mc" and ?P = "chunk_info_vec mc'"
  let ?n = "marked_chunks mc" and ?m = "scanned_chunks mc"
  have P: "?P i = (if i < ?m then u32 (live_bytes ?H i) else ?H i)" for i
    by (simp add: PrepareForCompaction_Inr(1) [OF assms(1)] exclusive_scan_0 live_bytes_def)
  show "?P i = (if i < ?m then u32 (live_bytes ?H i) else ?H i)" by (rule P)
  have split_last: "0 < k \<Longrightarrow> live_bytes ?H k = live_bytes ?H (k - 1) + ?H (k - 1)" for k
    by (cases k) (simp_all add: live_bytes_def)
  show "tot = u32 (live_bytes ?H ?n)"
  proof (cases "?n < vector_length mc")
    case True
    then show ?thesis
      using PrepareForCompaction_Inr(2) [OF assms(1)]
      by (simp add: P scanned_chunks_def u32_u32_add u32_def)
  next
    case False
    with assms(2) have pos: "0 < ?n" by simp
    from False have m: "?m = ?n" by (simp add: scanned_chunks_def)
    have "tot = u32 (?H (?n - 1) + ?P (?n - 1))"
      using PrepareForCompaction_Inr(2) [OF assms(1)] False by (simp add: m)
    also have "\<dots> = u32 (?H (?n - 1) + u32 (live_bytes ?H (?n - 1)))"
      using pos by (simp add: P m)
    also have "\<dots> = u32 (live_bytes ?H ?n)"
      using split_last [OF pos] by (simp add: u32_def mod_add_right_eq add.commute)
    finally show ?thesis .
  qed
qed

lemma planned_Inr:
  "planned mc = Inr r \<Longrightarrow>
   PrepareForCompaction mc =
     Inr (fst (projr (PrepareForCompaction mc)), snd (projr (PrepareForCompaction mc)))"
  by (cases "PrepareForCompaction mc") (simp_all add: planned_def)

lemma planned_full_space: "planned full_space = Inr (8, 24, 4096)"
  by (simp add: planned_def PrepareForCompaction_def full_space_def mc0_def Let_def
        scanned_chunks_def marked_chunks_def align_defs exclusive_scan_numeral)

lemma planned_spare_space: "planned spare_space = Inr (24, 24, 4096)"
  by (simp add: planned_def PrepareForCompaction_def spare_space_def mc0_def Let_def
        scanned_chunks_def marked_chunks_def align_defs exclusive_scan_numeral)

text \<open>
  Claim C5, as the code has it. When \<open>PrepareForCompaction\<close> completes, every
  entry \<open>i\<close> the scan ran over holds the live bytes of the chunks before \<open>i\<close>
  (in 32-bit arithmetic); \<open>total\<close> is the live bytes of the whole marked portion
  and equals the last marked chunk's entry plus that chunk's own live bytes; the
  entries are non-decreasing when the live bytes fit 32 bits. When the vector
  has an entry to spare after the marked portion, the last entry stored is
  \<open>total\<close>; when the marked portion fills the vector, the last entry stored plus
  the last chunk's live bytes is \<open>total\<close> (in 32-bit arithmetic).
\<close>

theorem prefix_sum_of_histogram:
  assumes "PrepareForCompaction mc = Inr (mc', tot)" and "0 < vector_length mc"
  shows "(\<forall>i < scanned_chunks mc. chunk_info_vec mc' i = u32 (live_bytes (chunk_info_vec mc) i))
       \<and> tot = u32 (live_bytes (chunk_info_vec mc) (marked_chunks mc))
       \<and> (0 < marked_chunks mc \<longrightarrow>
            tot = u32 (chunk_info_vec mc' (marked_chunks mc - 1)
                       + chunk_info_vec mc (marked_chunks mc - 1)))
       \<and> (live_bytes (chunk_info_vec mc) (marked_chunks mc) < 2 ^ 32 \<longrightarrow>
            (\<forall>i j. i \<le> j \<and> j < scanned_chunks mc \<longrightarrow> chunk_info_vec mc' i \<le> chunk_info_vec mc' j))
       \<and> (marked_chunks mc < vector_length mc \<longrightarrow> chunk_info_vec mc' (scanned_chunks mc - 1) = tot)
       \<and> (\<not> marked_chunks mc < vector_length mc \<longrightarrow>
            u32 (chunk_info_vec mc' (scanned_chunks mc - 1) + chunk_info_vec mc (marked_chunks mc - 1)) = tot)"
proof -
  let ?H = "chunk_info_vec mc" and ?P = "chunk_info_vec mc'"
  let ?n = "marked_chunks mc" and ?m = "scanned_chunks mc"
  note P = PrepareForCompaction_total(1) [OF assms]
  note tot = PrepareForCompaction_total(2) [OF assms]
  have split_last: "0 < k \<Longrightarrow> live_bytes ?H k = live_bytes ?H (k - 1) + ?H (k - 1)" for k
    by (cases k) (simp_all add: live_bytes_def)
  have last: "tot = u32 (?P (?n - 1) + ?H (?n - 1))" if pos: "0 < ?n"
  proof -
    have "?n - 1 < ?m" using pos by (auto simp add: scanned_chunks_def)
    then have "?P (?n - 1) = u32 (live_bytes ?H (?n - 1))" by (simp add: P)
    then show ?thesis
      using split_last [OF pos] by (simp add: tot u32_u32_add)
  qed
  have mono: "?P i \<le> ?P j" if fits: "live_bytes ?H ?n < 2 ^ 32" and ij: "i \<le> j" "j < ?m" for i j
  proof -
    have le: "live_bytes ?H a \<le> live_bytes ?H b" if "a \<le> b" for a b
      unfolding live_bytes_def by (rule sum_mono2) (use that in auto)
    have "j \<le> ?n" using ij(2) by (simp add: scanned_chunks_def split: if_splits)
    then have "live_bytes ?H j < 2 ^ 32" using le [of j ?n] fits by simp
    moreover have "live_bytes ?H i \<le> live_bytes ?H j" using le ij(1) by simp
    ultimately show ?thesis using ij by (simp add: P u32_less)
  qed
  have spare: "?P (?m - 1) = tot" if "?n < vector_length mc"
    using that by (simp add: P scanned_chunks_def tot)
  have full: "u32 (?P (?m - 1) + ?H (?n - 1)) = tot" if "\<not> ?n < vector_length mc"
  proof -
    from that assms(2) have pos: "0 < ?n" by simp
    from that have "?m = ?n" by (simp add: scanned_chunks_def)
    then show ?thesis using last [OF pos] by simp
  qed
  have P1: "\<forall>i < ?m. ?P i = u32 (live_bytes ?H i)" by (simp add: P)
  have mono1: "live_bytes ?H ?n < 2 ^ 32 \<longrightarrow> (\<forall>i j. i \<le> j \<and> j < ?m \<longrightarrow> ?P i \<le> ?P j)"
    using mono by blast
  have f3: "0 < ?n \<longrightarrow> tot = u32 (?P (?n - 1) + ?H (?n - 1))"
    using last by blast
  have f5: "?n < vector_length mc \<longrightarrow> ?P (?m - 1) = tot"
    using spare by blast
  have f6: "\<not> ?n < vector_length mc \<longrightarrow> u32 (?P (?m - 1) + ?H (?n - 1)) = tot"
    using full by blast
  show ?thesis
    by (intro conjI; fact P1 tot f3 mono1 f5 f6)
qed

theorem prefix_sum_of_histogram_witness:
  "PrepareForCompaction full_space =
     Inr (fst (projr (PrepareForCompaction full_space)), snd (projr (PrepareForCompaction full_space)))
   \<and> 0 < vector_length full_space
   \<and> snd (projr (PrepareForCompaction full_space)) = 24
   \<and> chunk_info_vec (fst (projr (PrepareForCompaction full_space))) 7 = 8"
proof -
  have r: "PrepareForCompaction full_space =
     Inr (fst (projr (PrepareForCompaction full_space)), snd (projr (PrepareForCompaction full_space)))"
    by (rule planned_Inr [OF planned_full_space])
  have v: "0 < vector_length full_space" by (simp add: full_space_def mc0_def)
  have m: "marked_chunks full_space = 8" "scanned_chunks full_space = 8"
    by (simp_all add: scanned_chunks_def marked_chunks_def full_space_def mc0_def)
  have l: "live_bytes (chunk_info_vec full_space) 8 = 24"
          "live_bytes (chunk_info_vec full_space) 7 = 8"
    by (simp_all add: live_bytes_def full_space_def mc0_def lessThan_nat_numeral lessThan_Suc)
  show ?thesis
    using prefix_sum_of_histogram [OF r v] r v by (simp add: m l u32_def)
qed

text \<open>
  The claim as stated fails where the marked portion fills the vector: the last
  entry stored is 8, the live bytes of the span are 24.
\<close>

theorem last_entry_not_total_counterexample:
  "planned full_space = Inr (8, 24, 4096) \<and> (8::nat) \<noteq> 24"
  using planned_full_space by simp

text \<open>
  Claim C4, as the code has it. When \<open>PrepareForCompaction\<close> completes, the new end
  of the space is at most the start of the black allocations; it is the region
  base plus the live bytes of the marked portion, rounded up to the page size,
  so it lies less than one page above base plus live bytes and equals it exactly
  when that sum is page-aligned.
\<close>

theorem post_compact_end_shrinks:
  assumes "PrepareForCompaction mc = Inr (mc', tot)"
      and "0 < vector_length mc" and "0 < gPageSize mc"
  shows "post_compact_end mc' \<le> black_allocations_begin mc'
       \<and> tot = u32 (live_bytes (chunk_info_vec mc) (marked_chunks mc))
       \<and> post_compact_end mc' = AlignUp (bump_pointer_space_Begin mc + tot) (gPageSize mc)
       \<and> bump_pointer_space_Begin mc + tot \<le> post_compact_end mc'
       \<and> post_compact_end mc' < bump_pointer_space_Begin mc + tot + gPageSize mc
       \<and> (gPageSize mc dvd bump_pointer_space_Begin mc + tot \<longrightarrow>
            post_compact_end mc' = bump_pointer_space_Begin mc + tot)"
proof -
  note r = PrepareForCompaction_Inr [OF assms(1)]
  have a: "post_compact_end mc' \<le> black_allocations_begin mc'" using r(4) r(6) by simp
  have b: "tot = u32 (live_bytes (chunk_info_vec mc) (marked_chunks mc))"
    by (rule PrepareForCompaction_total(2) [OF assms(1,2)])
  have c: "bump_pointer_space_Begin mc + tot \<le> post_compact_end mc'"
    unfolding r(3) by (rule AlignUp_ge [OF assms(3)])
  have d: "post_compact_end mc' < bump_pointer_space_Begin mc + tot + gPageSize mc"
    unfolding r(3) by (rule AlignUp_less [OF assms(3)])
  have e: "gPageSize mc dvd bump_pointer_space_Begin mc + tot \<longrightarrow>
            post_compact_end mc' = bump_pointer_space_Begin mc + tot"
    unfolding r(3) using AlignUp_aligned [OF assms(3)] by blast
  show ?thesis
    by (intro conjI; fact a b r(3) c d e)
qed

theorem post_compact_end_shrinks_witness:
  "PrepareForCompaction spare_space =
     Inr (fst (projr (PrepareForCompaction spare_space)), snd (projr (PrepareForCompaction spare_space)))
   \<and> 0 < vector_length spare_space \<and> 0 < gPageSize spare_space
   \<and> post_compact_end (fst (projr (PrepareForCompaction spare_space)))
       \<le> black_allocations_begin (fst (projr (PrepareForCompaction spare_space)))"
proof -
  have r: "PrepareForCompaction spare_space =
     Inr (fst (projr (PrepareForCompaction spare_space)), snd (projr (PrepareForCompaction spare_space)))"
    by (rule planned_Inr [OF planned_spare_space])
  have v: "0 < vector_length spare_space" "0 < gPageSize spare_space"
    by (simp_all add: spare_space_def mc0_def)
  from post_compact_end_shrinks [OF r v]
  have "post_compact_end (fst (projr (PrepareForCompaction spare_space)))
       \<le> black_allocations_begin (fst (projr (PrepareForCompaction spare_space)))"
    by (rule conjunct1)
  with r v show ?thesis by (intro conjI)
qed

text \<open>
  The claim as stated fails on the rounding: with 24 live bytes in a region
  based at 0 the new end is 4096, not 24.
\<close>

theorem post_compact_end_rounded_counterexample:
  "planned spare_space = Inr (24, 24, 4096)
   \<and> bump_pointer_space_Begin spare_space + 24 \<noteq> 4096"
  using planned_spare_space by (simp add: spare_space_def mc0_def)

subsection \<open>The fault path for pages without a first object\<close>



lemma unprocessed_run_step:
  "i < e \<Longrightarrow> moving_pages_status s i = (kUnprocessed, 0) \<Longrightarrow>
   unprocessed_run s i e = Suc (unprocessed_run s (Suc i) e)"
  by (simp add: unprocessed_run_def upt_conv_Cons)

lemma unprocessed_run_stop:
  "\<not> i < e \<or> moving_pages_status s i \<noteq> (kUnprocessed, 0) \<Longrightarrow> unprocessed_run s i e = 0"
  by (cases "i < e") (auto simp add: unprocessed_run_def upt_conv_Cons)

lemma unprocessed_run_cong:
  "(\<And>j. i \<le> j \<Longrightarrow> moving_pages_status s' j = moving_pages_status s j) \<Longrightarrow>
   unprocessed_run s' i e = unprocessed_run s i e"
  unfolding unprocessed_run_def
  by (rule arg_cong [where f = length], rule takeWhile_cong) auto

lemma empty_range [simp]: "((i::nat) \<le> j \<and> j < i) = False"
  by auto

lemma claim_zero_pages_eq:
  "claim_zero_pages idx e len s =
     (len + unprocessed_run s idx e * gPageSize s,
      s\<lparr>moving_pages_status :=
           (\<lambda>j. if idx \<le> j \<and> j < idx + unprocessed_run s idx e then (kProcessedAndMapping, 0)
                else moving_pages_status s j),
         events := events s @ map (\<lambda>j. StateChange j kUnprocessed kProcessedAndMapping)
                                  [idx..<idx + unprocessed_run s idx e]\<rparr>)"
proof (induction idx e len s rule: claim_zero_pages.induct)
  case (1 idx e len s)
  show ?case
  proof (cases "idx < e \<and> moving_pages_status s idx = (kUnprocessed, 0)")
    case False
    then have "unprocessed_run s idx e = 0" by (auto intro: unprocessed_run_stop)
    with False show ?thesis by (auto simp add: claim_zero_pages.simps [of idx e len s])
  next
    case True
    let ?s1 = "set_status idx (kProcessedAndMapping, 0) s"
    have run1: "unprocessed_run ?s1 (idx + 1) e = unprocessed_run s (Suc idx) e"
      by (simp, rule unprocessed_run_cong) (simp add: set_status_def emit_def)
    have run: "unprocessed_run s idx e = Suc (unprocessed_run s (Suc idx) e)"
      using True by (simp add: unprocessed_run_step)
    have ih: "claim_zero_pages (idx + 1) e (len + gPageSize s) ?s1 = 
       (len + gPageSize s + unprocessed_run ?s1 (idx + 1) e * gPageSize ?s1,
      ?s1\<lparr>moving_pages_status :=
           (\<lambda>j. if idx + 1 \<le> j \<and> j < idx + 1 + unprocessed_run ?s1 (idx + 1) e then (kProcessedAndMapping, 0)
                else moving_pages_status ?s1 j),
         events := events ?s1 @ map (\<lambda>j. StateChange j kUnprocessed kProcessedAndMapping)
                                  [idx + 1..<idx + 1 + unprocessed_run ?s1 (idx + 1) e]\<rparr>)"
      using True by (intro "1.IH") auto
    have "claim_zero_pages idx e len s = claim_zero_pages (idx + 1) e (len + gPageSize s) ?s1"
      using True by (simp add: claim_zero_pages.simps [of idx e len s])
    also note ih
    finally have eq: "claim_zero_pages idx e len s =
       (len + gPageSize s + unprocessed_run ?s1 (idx + 1) e * gPageSize ?s1,
      ?s1\<lparr>moving_pages_status :=
           (\<lambda>j. if idx + 1 \<le> j \<and> j < idx + 1 + unprocessed_run ?s1 (idx + 1) e then (kProcessedAndMapping, 0)
                else moving_pages_status ?s1 j),
         events := events ?s1 @ map (\<lambda>j. StateChange j kUnprocessed kProcessedAndMapping)
                                  [idx + 1..<idx + 1 + unprocessed_run ?s1 (idx + 1) e]\<rparr>)" .
    show ?thesis
      unfolding eq run1 run using True
      by (auto simp add: set_status_def emit_def upt_conv_Cons fun_eq_iff)
  qed
qed





lemma mark_zero_pages_eq:
  assumes "0 < gPageSize s" and "k \<le> n"
  shows "mark_zero_pages (k * gPageSize s) idx (n * gPageSize s) s =
     Inr (s\<lparr>moving_pages_status :=
           (\<lambda>j. if idx \<le> j \<and> j < idx + (n - k) then (kProcessedAndMapped, 0)
                else moving_pages_status s j),
         events := events s @ map (\<lambda>j. StateChange j (fst (moving_pages_status s j)) kProcessedAndMapped)
                                  [idx..<idx + (n - k)]\<rparr>)"
  using assms
proof (induction "n - k" arbitrary: k idx s)
  case 0
  then have "k = n" by simp
  then show ?case by (simp add: mark_zero_pages.simps [of "n * gPageSize s"])
next
  case (Suc d)
  let ?g = "gPageSize s"
  let ?s1 = "set_status idx (kProcessedAndMapped, 0) s"
  have g1: "gPageSize ?s1 = ?g" by (simp add: set_status_def emit_def)
  from Suc have kn: "k < n" and d: "d = n - Suc k" by simp_all
  have lt: "k * ?g < n * ?g" using kn Suc.prems by simp
  have step: "mark_zero_pages (k * ?g) idx (n * ?g) s =
              mark_zero_pages (Suc k * gPageSize ?s1) (idx + 1) (n * gPageSize ?s1) ?s1"
    using lt Suc.prems by (simp add: mark_zero_pages.simps [of "k * ?g" idx "n * ?g" s] g1 add.commute)
  have ih: "mark_zero_pages (Suc k * gPageSize ?s1) (idx + 1) (n * gPageSize ?s1) ?s1 =
     Inr (?s1\<lparr>moving_pages_status :=
           (\<lambda>j. if idx + 1 \<le> j \<and> j < idx + 1 + (n - Suc k) then (kProcessedAndMapped, 0)
                else moving_pages_status ?s1 j),
         events := events ?s1 @ map (\<lambda>j. StateChange j (fst (moving_pages_status ?s1 j)) kProcessedAndMapped)
                                  [idx + 1..<idx + 1 + (n - Suc k)]\<rparr>)"
    using kn Suc.prems by (intro Suc.hyps(1)) (simp_all add: d g1)
  have nk: "n - k = Suc (n - Suc k)" using kn by simp
  show ?case
    unfolding step ih nk
    by (auto simp add: set_status_def emit_def upt_conv_Cons fun_eq_iff)
qed

lemma ZeropageIoctl_loop_Inr:
  "ZeropageIoctl_loop a l te tn s = Inr s' \<Longrightarrow>
   \<exists>k evs. s' = s\<lparr>kernel := k, events := events s @ evs\<rparr> \<and> list_all is_ioctl evs"
proof (induction a l te tn s rule: ZeropageIoctl_loop.induct)
  case (1 start len te tn s)
  show ?case
  proof (cases "len > 0")
    case False
    with "1.prems" have "s' = s" by (simp add: ZeropageIoctl_loop.simps [of start len])
    then have "s' = s\<lparr>kernel := kernel s, events := events s @ []\<rparr> \<and> list_all is_ioctl []" by simp
    then show ?thesis by blast
  next
    case True
    show ?thesis
    proof (cases "kernel s")
      case Nil
      with True "1.prems" show ?thesis by (simp add: ZeropageIoctl_loop.simps [of start len])
    next
      case (Cons r rs)
      let ?s1 = "emit (Ioctl (UFFDIO_ZEROPAGE start len)) (s\<lparr>kernel := rs\<rparr>)"
      have s1: "?s1 = s\<lparr>kernel := rs, events := events s @ [Ioctl (UFFDIO_ZEROPAGE start len)]\<rparr>"
        by (simp add: emit_def)
      show ?thesis
      proof (cases "r_ret r \<noteq> 0 \<and> r_errno r = EAGAIN")
        case False
        with True Cons "1.prems" have "s' = ?s1"
          by (auto simp add: ZeropageIoctl_loop.simps [of start len] Let_def split: if_splits)
        then have "s' = s\<lparr>kernel := rs, events := events s @ [Ioctl (UFFDIO_ZEROPAGE start len)]\<rparr>
                   \<and> list_all is_ioctl [Ioctl (UFFDIO_ZEROPAGE start len)]"
          by (simp add: s1)
        then show ?thesis by blast
      next
        case eagain: True
        then have rec: "ZeropageIoctl_loop (size_t (int start + r_bytes r)) (size_t (int len - r_bytes r)) te tn ?s1 = Inr s'"
          using True Cons "1.prems" by (simp add: ZeropageIoctl_loop.simps [of start len] Let_def)
        from "1.IH" [OF True Cons refl _ _ rec] eagain
        obtain k evs where "s' = ?s1\<lparr>kernel := k, events := events ?s1 @ evs\<rparr>" "list_all is_ioctl evs"
          by auto
        then have "s' = s\<lparr>kernel := k, events := events s @ (Ioctl (UFFDIO_ZEROPAGE start len) # evs)\<rparr>
                   \<and> list_all is_ioctl (Ioctl (UFFDIO_ZEROPAGE start len) # evs)"
          by (simp add: emit_def)
        then show ?thesis by blast
      qed
    qed
  qed
qed

lemma ZeropageIoctl_Inr:
  "ZeropageIoctl a l te tn s = Inr s' \<Longrightarrow>
   \<exists>k evs. s' = s\<lparr>kernel := k, events := events s @ CallZeropageIoctl a l te tn # evs\<rparr>
           \<and> list_all is_ioctl evs"
proof -
  assume "ZeropageIoctl a l te tn s = Inr s'"
  then have "ZeropageIoctl_loop a l te tn (emit (CallZeropageIoctl a l te tn) s) = Inr s'"
    by (simp add: ZeropageIoctl_def)
  from ZeropageIoctl_loop_Inr [OF this]
  obtain k evs where "s' = (emit (CallZeropageIoctl a l te tn) s)\<lparr>kernel := k,
      events := events (emit (CallZeropageIoctl a l te tn) s) @ evs\<rparr>" "list_all is_ioctl evs"
    by blast
  then have "s' = s\<lparr>kernel := k, events := events s @ CallZeropageIoctl a l te tn # evs\<rparr>
           \<and> list_all is_ioctl evs"
    by (simp add: emit_def)
  then show ?thesis by blast
qed





lemma takeWhile_upt_prefix:
  "takeWhile P [i..<e] = [i..<i + length (takeWhile P [i..<e])]"
proof (induction "e - i" arbitrary: i)
  case 0
  then show ?case by simp
next
  case (Suc d)
  then have ie: "i < e" and d: "d = e - Suc i" by simp_all
  show ?case
  proof (cases "P i")
    case True
    define n where "n = length (takeWhile P [Suc i..<e])"
    have ih: "takeWhile P [Suc i..<e] = [Suc i..<Suc i + n]"
      unfolding n_def by (rule Suc.hyps(1) [OF d])
    have "takeWhile P [i..<e] = i # takeWhile P [Suc i..<e]"
      using ie True by (simp add: upt_conv_Cons)
    also have "\<dots> = i # [Suc i..<Suc i + n]"
      by (simp only: ih)
    also have "\<dots> = [i..<i + Suc n]"
      by (simp add: upt_conv_Cons)
    finally have t: "takeWhile P [i..<e] = [i..<i + Suc n]" .
    then have "length (takeWhile P [i..<e]) = Suc n" by simp
    with t show ?thesis by simp
  next
    case False
    then show ?thesis using ie by (simp add: upt_conv_Cons)
  qed
qed

lemma unprocessed_run_pages:
  assumes "i \<le> j" and "j < i + unprocessed_run s i e"
  shows "moving_pages_status s j = (kUnprocessed, 0)"
proof -
  let ?P = "\<lambda>j. moving_pages_status s j = (kUnprocessed, 0)"
  have "j \<in> set [i..<i + length (takeWhile ?P [i..<e])]"
    using assms by (simp add: unprocessed_run_def)
  then have "j \<in> set (takeWhile ?P [i..<e])"
    using takeWhile_upt_prefix [of ?P i e] by simp
  then show ?thesis by (rule set_takeWhileD [THEN conjunct2])
qed

lemma filter_ioctl_events:
  "list_all is_ioctl evs \<Longrightarrow> filter is_compaction evs = [] \<and> filter is_publish_call evs = []"
  by (induction evs) (auto elim: is_ioctl.elims)

lemma filter_StateChange [simp]:
  "filter is_compaction (map (\<lambda>j. StateChange j (a j) (b j)) xs) = []"
  "filter is_publish_call (map (\<lambda>j. StateChange j (a j) (b j)) xs) = []"
  by (induction xs) simp_all



lemma tlab_pages_fields [simp]:
  "gPageSize tlab_pages = 4096" "bump_pointer_space_Begin tlab_pages = 0"
  "first_objs_moving_space tlab_pages = (\<lambda>_. 0)(0 := 64, 1 := 64)"
  "moving_pages_status tlab_pages = (\<lambda>_. (kUnprocessed, 0))(4 := (kProcessedAndMapped, 0))"
  "kernel tlab_pages = [ok]" "events tlab_pages = []"
  by (simp_all add: tlab_pages_def mc0_def)

lemma tlab_thread_fields [simp]: "tlab_start tlab_thread = 4096" "tlab_end tlab_thread = 24000"
  by (simp_all add: tlab_thread_def)

lemma ok_fields [simp]: "r_ret ok = 0"
  by (simp add: ok_def)



subsection \<open>The SIGBUS handler\<close>

lemma HasAddress_upd [simp]:
  "HasAddress (s\<lparr>sigbus_in_progress_count := c\<rparr>) p = HasAddress s p"
  "in_linear_alloc (s\<lparr>sigbus_in_progress_count := c\<rparr>) p = in_linear_alloc s p"
  by (simp_all add: HasAddress_def in_linear_alloc_def)

text \<open>
  Claim C10. \<open>SigbusHandler\<close> returns false, leaving the collector as it was, for
  a fault whose cause is not an address error, and for an address error whose
  page lies outside the moving space and every linear-alloc space; once the
  compaction-done bit is set, an address error on a page inside one of those
  spaces is reported handled and nothing is done: the collector's state,
  including the record of compactions and publish calls, is unchanged.
\<close>

theorem sigbus_handler_owns:
  "(si_code info \<noteq> BUS_ADRERR \<longrightarrow> SigbusHandler lin info self s = Inr (False, self, s))
   \<and> (si_code info = BUS_ADRERR \<and> \<not> HasAddress s (fault_page_of s info)
        \<and> \<not> in_linear_alloc s (fault_page_of s info)
      \<longrightarrow> SigbusHandler lin info self s = Inr (False, self, s))
   \<and> (si_code info = BUS_ADRERR \<and> compaction_done s
        \<and> (HasAddress s (fault_page_of s info) \<or> in_linear_alloc s (fault_page_of s info))
      \<longrightarrow> SigbusHandler lin info self s = Inr (True, self, s))"
  by (auto simp add: SigbusHandler_def Let_def fault_page_of_def compaction_done_def)


theorem sigbus_handler_owns_witness:
  "si_code \<lparr>si_code = 1, si_addr = 5000\<rparr> \<noteq> BUS_ADRERR
   \<and> SigbusHandler no_linear_alloc_work \<lparr>si_code = 1, si_addr = 5000\<rparr> idle_thread done_state
       = Inr (False, idle_thread, done_state)
   \<and> \<not> HasAddress done_state (fault_page_of done_state \<lparr>si_code = 2, si_addr = 50000\<rparr>)
   \<and> \<not> in_linear_alloc done_state (fault_page_of done_state \<lparr>si_code = 2, si_addr = 50000\<rparr>)
   \<and> SigbusHandler no_linear_alloc_work \<lparr>si_code = 2, si_addr = 50000\<rparr> idle_thread done_state
       = Inr (False, idle_thread, done_state)
   \<and> compaction_done done_state
   \<and> HasAddress done_state (fault_page_of done_state \<lparr>si_code = 2, si_addr = 5000\<rparr>)
   \<and> SigbusHandler no_linear_alloc_work \<lparr>si_code = 2, si_addr = 5000\<rparr> idle_thread done_state
       = Inr (True, idle_thread, done_state)"
proof -
  let ?lin = no_linear_alloc_work and ?self = idle_thread
  have a: "si_code \<lparr>si_code = 1, si_addr = 5000\<rparr> \<noteq> BUS_ADRERR" by (simp add: BUS_ADRERR_def)
  have b: "si_code \<lparr>si_code = 2, si_addr = n\<rparr> = BUS_ADRERR" for n by (simp add: BUS_ADRERR_def)
  have c: "\<not> HasAddress done_state (fault_page_of done_state \<lparr>si_code = 2, si_addr = 50000\<rparr>)"
          "\<not> in_linear_alloc done_state (fault_page_of done_state \<lparr>si_code = 2, si_addr = 50000\<rparr>)"
    by (simp_all add: HasAddress_def in_linear_alloc_def fault_page_of_def done_state_def mc0_def
          AlignDown_def)
  have d: "compaction_done done_state"
    by (simp add: compaction_done_def done_state_def mc0_def)
  have e: "HasAddress done_state (fault_page_of done_state \<lparr>si_code = 2, si_addr = 5000\<rparr>)"
    by (simp add: HasAddress_def fault_page_of_def done_state_def mc0_def AlignDown_def)
  note t1 = sigbus_handler_owns [of "\<lparr>si_code = 1, si_addr = 5000\<rparr>" ?lin ?self done_state]
  note t2 = sigbus_handler_owns [of "\<lparr>si_code = 2, si_addr = 50000\<rparr>" ?lin ?self done_state]
  note t3 = sigbus_handler_owns [of "\<lparr>si_code = 2, si_addr = 5000\<rparr>" ?lin ?self done_state]
  from t1 a have r1: "SigbusHandler ?lin \<lparr>si_code = 1, si_addr = 5000\<rparr> ?self done_state
       = Inr (False, ?self, done_state)"
    by blast
  from t2 b c have r2: "SigbusHandler ?lin \<lparr>si_code = 2, si_addr = 50000\<rparr> ?self done_state
       = Inr (False, ?self, done_state)"
    by blast
  from t3 b d e have r3: "SigbusHandler ?lin \<lparr>si_code = 2, si_addr = 5000\<rparr> ?self done_state
       = Inr (True, ?self, done_state)"
    by blast
  show ?thesis by (intro conjI; fact a r1 c r2 d e r3)
qed

subsection \<open>What the page operations change\<close>

text \<open>
  Every operation on moving-space pages that returns leaves the collector's
  layout alone (\<open>evolves\<close>) and adds to the record of events; the lemmas below
  say which events.
\<close>

lemma evolves_refl [simp]: "evolves s s []"
  by (simp add: evolves_def)

lemma evolves_trans:
  "evolves s s1 e1 \<Longrightarrow> evolves s1 s2 e2 \<Longrightarrow> evolves s s2 (e1 @ e2)"
  by (simp add: evolves_def)

lemma evolves_Cons:
  "evolves s s1 [e] \<Longrightarrow> evolves s1 s2 evs \<Longrightarrow> evolves s s2 (e # evs)"
  by (simp add: evolves_def)

lemma frame_fields:
  assumes "frame s' = frame s"
  shows "gPageSize s' = gPageSize s" "moving_first_objs_count s' = moving_first_objs_count s"
    "black_page_count s' = black_page_count s"
    "first_objs_moving_space s' = first_objs_moving_space s"
    "use_uffd_sigbus s' = use_uffd_sigbus s"
    "from_space_begin s' = from_space_begin s"
proof -
  have g: "f (frame s') = f (frame s)" for f :: "MarkCompact \<Rightarrow> 'a" using assms by simp
  show "gPageSize s' = gPageSize s" using g [of gPageSize] by (simp add: frame_def)
  show "moving_first_objs_count s' = moving_first_objs_count s"
    using g [of moving_first_objs_count] by (simp add: frame_def)
  show "black_page_count s' = black_page_count s" using g [of black_page_count] by (simp add: frame_def)
  show "first_objs_moving_space s' = first_objs_moving_space s"
    using g [of first_objs_moving_space] by (simp add: frame_def)
  show "use_uffd_sigbus s' = use_uffd_sigbus s" using g [of use_uffd_sigbus] by (simp add: frame_def)
  show "from_space_begin s' = from_space_begin s" using g [of from_space_begin] by (simp add: frame_def)
qed

lemmas evolves_fields = frame_fields [OF evolves_def [THEN iffD1, THEN conjunct1]]

lemma evolves_emit [simp]: "evolves s (emit e s) [e]"
  by (simp add: evolves_def frame_def emit_def)

lemma evolves_set_status [simp]:
  "evolves s (set_status i v s) [StateChange i (fst (moving_pages_status s i)) (fst v)]"
  by (simp add: evolves_def frame_def emit_def set_status_def)

lemma CopyIoctl_loop_Inr:
  "CopyIoctl_loop d b l s = Inr s' \<Longrightarrow>
   \<exists>evs. evolves s s' evs \<and> moving_pages_status s' = moving_pages_status s \<and> list_all quiet evs"
proof (induction d b l s rule: CopyIoctl_loop.induct)
  case (1 dst src len s)
  show ?case
  proof (cases "len > 0")
    case False
    with "1.prems" have "s' = s" by (simp add: CopyIoctl_loop.simps [of dst src len])
    then have "evolves s s' [] \<and> moving_pages_status s' = moving_pages_status s \<and> list_all quiet []"
      by simp
    then show ?thesis by blast
  next
    case True
    show ?thesis
    proof (cases "kernel s")
      case Nil
      with True "1.prems" show ?thesis by (simp add: CopyIoctl_loop.simps [of dst src len])
    next
      case (Cons r rs)
      let ?e = "Ioctl (UFFDIO_COPY dst src len)"
      let ?s1 = "emit ?e (s\<lparr>kernel := rs\<rparr>)"
      have s1: "evolves s ?s1 [?e]" "moving_pages_status ?s1 = moving_pages_status s"
        by (simp_all add: evolves_def frame_def emit_def)
      show ?thesis
      proof (cases "r_ret r \<noteq> 0 \<and> r_errno r = EAGAIN")
        case False
        with True Cons "1.prems" have "s' = ?s1"
          by (auto simp add: CopyIoctl_loop.simps [of dst src len] Let_def split: if_splits)
        with s1 have "evolves s s' [?e] \<and> moving_pages_status s' = moving_pages_status s
                      \<and> list_all quiet [?e]" by simp
        then show ?thesis by blast
      next
        case eagain: True
        then have rec: "CopyIoctl_loop (size_t (int dst + r_bytes r)) (size_t (int src + r_bytes r))
                          (size_t (int len - r_bytes r)) ?s1 = Inr s'"
          using True Cons "1.prems" by (simp add: CopyIoctl_loop.simps [of dst src len] Let_def)
        from "1.IH" [OF True Cons refl _ _ rec] eagain
        obtain evs where "evolves ?s1 s' evs" "moving_pages_status s' = moving_pages_status ?s1"
          "list_all quiet evs" by auto
        with s1 have "evolves s s' (?e # evs) \<and> moving_pages_status s' = moving_pages_status s
                      \<and> list_all quiet (?e # evs)"
          by (auto intro: evolves_Cons)
        then show ?thesis by blast
      qed
    qed
  qed
qed

lemma CopyIoctl_Inr:
  assumes "CopyIoctl d b l s = Inr s'"
  shows "\<exists>evs. evolves s s' evs \<and> moving_pages_status s' = moving_pages_status s \<and> list_all quiet evs"
proof -
  let ?e = "CallCopyIoctl d b l"
  from assms have "CopyIoctl_loop d b l (emit ?e s) = Inr s'" by (simp add: CopyIoctl_def)
  from CopyIoctl_loop_Inr [OF this] obtain evs where
    ev: "evolves (emit ?e s) s' evs" and st: "moving_pages_status s' = moving_pages_status (emit ?e s)"
    and q: "list_all quiet evs" by blast
  have "evolves s s' ([?e] @ evs)" by (rule evolves_trans [OF evolves_emit ev])
  moreover have "moving_pages_status s' = moving_pages_status s" using st by (simp add: emit_def)
  moreover have "list_all quiet ([?e] @ evs)" using q by simp
  ultimately show ?thesis by blast
qed


lemma compacted_append [simp]: "compacted (xs @ ys) = compacted xs @ compacted ys"
  by (induction xs rule: compacted.induct) simp_all

lemma compacted_StateChange [simp]: "compacted (map (\<lambda>j. StateChange j (a j) (b j)) xs) = []"
  by (induction xs) simp_all

lemma quiet_events: "list_all quiet evs \<Longrightarrow> compacted evs = [] \<and> list_all forward_event evs"
  by (induction evs) (auto elim: quiet.elims)

lemma processed_run_step:
  "i < e \<Longrightarrow> fst (moving_pages_status s i) = kProcessed \<Longrightarrow>
   processed_run s i e = Suc (processed_run s (Suc i) e)"
  by (simp add: processed_run_def upt_conv_Cons)

lemma processed_run_stop:
  "\<not> i < e \<or> fst (moving_pages_status s i) \<noteq> kProcessed \<Longrightarrow> processed_run s i e = 0"
  by (cases "i < e") (auto simp add: processed_run_def upt_conv_Cons)

lemma processed_run_cong:
  "(\<And>j. i \<le> j \<Longrightarrow> moving_pages_status s' j = moving_pages_status s j) \<Longrightarrow>
   processed_run s' i e = processed_run s i e"
  unfolding processed_run_def
  by (rule arg_cong [where f = length], rule takeWhile_cong) auto

lemma claim_moving_eq:
  "claim_moving idx e len s =
     (len + processed_run s idx e * gPageSize s,
      s\<lparr>moving_pages_status :=
           (\<lambda>j. if idx \<le> j \<and> j < idx + processed_run s idx e then (kProcessedAndMapping, 0)
                else moving_pages_status s j),
         events := events s @ map (\<lambda>j. StateChange j kProcessed kProcessedAndMapping)
                                  [idx..<idx + processed_run s idx e]\<rparr>)"
proof (induction idx e len s rule: claim_moving.induct)
  case (1 idx e len s)
  show ?case
  proof (cases "idx < e \<and> fst (moving_pages_status s idx) = kProcessed")
    case False
    then have "processed_run s idx e = 0" by (auto intro: processed_run_stop)
    with False show ?thesis by (auto simp add: claim_moving.simps [of idx e len s])
  next
    case True
    let ?s1 = "set_status idx (kProcessedAndMapping, 0) s"
    have run1: "processed_run ?s1 (idx + 1) e = processed_run s (Suc idx) e"
      by (simp, rule processed_run_cong) (simp add: set_status_def emit_def)
    have run: "processed_run s idx e = Suc (processed_run s (Suc idx) e)"
      using True by (simp add: processed_run_step)
    have ih: "claim_moving (idx + 1) e (len + gPageSize s) ?s1 =
       (len + gPageSize s + processed_run ?s1 (idx + 1) e * gPageSize ?s1,
      ?s1\<lparr>moving_pages_status :=
           (\<lambda>j. if idx + 1 \<le> j \<and> j < idx + 1 + processed_run ?s1 (idx + 1) e then (kProcessedAndMapping, 0)
                else moving_pages_status ?s1 j),
         events := events ?s1 @ map (\<lambda>j. StateChange j kProcessed kProcessedAndMapping)
                                  [idx + 1..<idx + 1 + processed_run ?s1 (idx + 1) e]\<rparr>)"
      using True by (intro "1.IH") auto
    have "claim_moving idx e len s = claim_moving (idx + 1) e (len + gPageSize s) ?s1"
      using True by (simp add: claim_moving.simps [of idx e len s])
    also note ih
    finally have eq: "claim_moving idx e len s =
       (len + gPageSize s + processed_run ?s1 (idx + 1) e * gPageSize ?s1,
      ?s1\<lparr>moving_pages_status :=
           (\<lambda>j. if idx + 1 \<le> j \<and> j < idx + 1 + processed_run ?s1 (idx + 1) e then (kProcessedAndMapping, 0)
                else moving_pages_status ?s1 j),
         events := events ?s1 @ map (\<lambda>j. StateChange j kProcessed kProcessedAndMapping)
                                  [idx + 1..<idx + 1 + processed_run ?s1 (idx + 1) e]\<rparr>)" .
    show ?thesis
      unfolding eq run1 run using True
      by (auto simp add: set_status_def emit_def upt_conv_Cons fun_eq_iff)
  qed
qed

lemma mark_moving_mapped_eq:
  assumes "0 < gPageSize s"
  shows "mark_moving_mapped idx (n * gPageSize s) s =
     Inr (0, s\<lparr>moving_pages_status :=
           (\<lambda>j. if idx \<le> j \<and> j < idx + n then (kProcessedAndMapped, 0)
                else moving_pages_status s j),
         events := events s @ map (\<lambda>j. StateChange j (fst (moving_pages_status s j)) kProcessedAndMapped)
                                  [idx..<idx + n]\<rparr>)"
  using assms
proof (induction n arbitrary: idx s)
  case 0
  then show ?case by (simp add: mark_moving_mapped.simps [of idx 0])
next
  case (Suc n)
  let ?g = "gPageSize s"
  let ?s1 = "set_status idx (kProcessedAndMapped, 0) s"
  have g1: "gPageSize ?s1 = ?g" by (simp add: set_status_def emit_def)
  have step: "mark_moving_mapped idx (Suc n * ?g) s = mark_moving_mapped (idx + 1) (n * gPageSize ?s1) ?s1"
    using Suc.prems by (subst mark_moving_mapped.simps) (simp add: g1)
  have ih: "mark_moving_mapped (idx + 1) (n * gPageSize ?s1) ?s1 =
     Inr (0, ?s1\<lparr>moving_pages_status :=
           (\<lambda>j. if idx + 1 \<le> j \<and> j < idx + 1 + n then (kProcessedAndMapped, 0)
                else moving_pages_status ?s1 j),
         events := events ?s1 @ map (\<lambda>j. StateChange j (fst (moving_pages_status ?s1 j)) kProcessedAndMapped)
                                  [idx + 1..<idx + 1 + n]\<rparr>)"
    using Suc.prems by (intro Suc.IH) (simp add: g1)
  show ?case
    unfolding step ih
    by (auto simp add: set_status_def emit_def upt_conv_Cons fun_eq_iff simp del: upt_Suc)
qed

lemma forward_claims [simp]:
  "list_all forward_event (map (\<lambda>j. StateChange j kProcessed kProcessedAndMapping) xs)"
  "list_all forward_event (map (\<lambda>j. StateChange j kUnprocessed kProcessedAndMapping) xs)"
  by (induction xs) simp_all

lemma MapMovingSpacePages_Inr:
  assumes "MapMovingSpacePages a e s = Inr (len, s')"
  shows "\<exists>evs. evolves s s' evs \<and> list_all forward_event evs \<and> compacted evs = []"
proof (cases "fst (moving_pages_status s a) = kProcessed")
  case False
  with assms have "s' = s" by (simp add: MapMovingSpacePages_def Let_def)
  then have "evolves s s' [] \<and> list_all forward_event [] \<and> compacted [] = []" by simp
  then show ?thesis by blast
next
  case True
  let ?n = "processed_run s a e" and ?g = "gPageSize s"
  let ?c = "map (\<lambda>j. StateChange j kProcessed kProcessedAndMapping) [a..<a + ?n]"
  let ?s1 = "s\<lparr>moving_pages_status :=
           (\<lambda>j. if a \<le> j \<and> j < a + ?n then (kProcessedAndMapping, 0)
                else moving_pages_status s j),
         events := events s @ ?c\<rparr>"
  have claim: "claim_moving a e 0 s = (?n * ?g, ?s1)"
    using claim_moving_eq [of a e 0 s] by simp
  have e1: "evolves s ?s1 ?c" by (simp add: evolves_def frame_def)
  show ?thesis
  proof (cases "?n * ?g > 0")
    case False
    with assms True claim have "s' = ?s1"
      by (auto simp add: MapMovingSpacePages_def Let_def)
    with e1 have "evolves s s' ?c \<and> list_all forward_event ?c \<and> compacted ?c = []" by simp
    then show ?thesis by blast
  next
    case pos: True
    then have g: "0 < ?g" by simp
    from assms True claim pos obtain s2 where
      c: "CopyIoctl (moving_space_begin s + a * ?g) (from_space_begin s + snd (moving_pages_status s a))
            (?n * ?g) ?s1 = Inr s2"
      and m: "mark_moving_mapped a (?n * ?g) s2 = Inr (len, s')"
      by (cases "CopyIoctl (moving_space_begin s + a * ?g) (from_space_begin s + snd (moving_pages_status s a))
            (?n * ?g) ?s1") (simp_all add: MapMovingSpacePages_def Let_def bnd_def)
    from CopyIoctl_Inr [OF c] obtain evs where
      e2: "evolves ?s1 s2 evs" and st2: "moving_pages_status s2 = moving_pages_status ?s1"
      and q: "list_all quiet evs" by blast
    have g2: "gPageSize s2 = ?g" using evolves_fields(1) [OF e2] by simp
    let ?m = "map (\<lambda>j. StateChange j (fst (moving_pages_status s2 j)) kProcessedAndMapped) [a..<a + ?n]"
    have "mark_moving_mapped a (?n * gPageSize s2) s2 =
       Inr (0, s2\<lparr>moving_pages_status :=
           (\<lambda>j. if a \<le> j \<and> j < a + ?n then (kProcessedAndMapped, 0)
                else moving_pages_status s2 j),
         events := events s2 @ ?m\<rparr>)"
      by (rule mark_moving_mapped_eq) (simp add: g2 g)
    with m have s': "s' = s2\<lparr>moving_pages_status :=
           (\<lambda>j. if a \<le> j \<and> j < a + ?n then (kProcessedAndMapped, 0)
                else moving_pages_status s2 j),
         events := events s2 @ ?m\<rparr>"
      by (auto simp add: g2)
    have e3: "evolves s2 s' ?m" by (simp add: s' evolves_def frame_def)
    have fm: "list_all forward_event ?m"
      by (simp add: list_all_iff st2)
    have ev: "evolves s s' (?c @ evs @ ?m)"
      by (rule evolves_trans [OF e1 evolves_trans [OF e2 e3]])
    have "list_all forward_event (?c @ evs @ ?m) \<and> compacted (?c @ evs @ ?m) = []"
      using quiet_events [OF q] fm by simp
    with ev show ?thesis by blast
  qed
qed

lemma bnd_Inr: "(bnd m f = Inr y) = (\<exists>x. m = Inr x \<and> f x = Inr y)"
  by (cases m) (simp_all add: bnd_def)

lemma CompactPage_emit: "CompactPage a b c d = emit (CallCompactPage a b c d)"
  by (rule ext) (simp add: CompactPage_def)

lemma SlideBlackPage_emit: "SlideBlackPage a b c d e f = emit (CallSlideBlackPage a b c d e f)"
  by (rule ext) (simp add: SlideBlackPage_def)

text \<open>
  A status word with \<open>kProcessed\<close> or-ed in has bit 1 set: the state it decodes
  to is \<open>kProcessed\<close>, \<open>kProcessingAndMapping\<close> or \<open>kProcessedAndMapped\<close>.
\<close>

lemma processed_bit: "and (or (w::nat) 2) 255 \<notin> {0, 1, 4, 5}"
proof -
  have "bit (2::nat) (Suc 0)" "bit (255::nat) (Suc 0)"
    by (simp_all add: bit_iff_odd)
  then have "bit (and (or w 2) 255) (Suc 0)"
    by (simp add: bit_and_iff bit_or_iff)
  moreover have "\<not> bit (0::nat) (Suc 0)" "\<not> bit (1::nat) (Suc 0)"
    "\<not> bit (4::nat) (Suc 0)" "\<not> bit (5::nat) (Suc 0)"
    by (simp_all add: bit_iff_odd)
  ultimately show ?thesis by (metis insertE singletonD)
qed

lemma word_status_processed:
  assumes "word_status (or w (PageState_code kProcessed)) = Some v"
  shows "fst v = kProcessed \<or> fst v = kProcessingAndMapping \<or> fst v = kProcessedAndMapped"
  using assms processed_bit [of w]
  by (auto simp add: word_status_def kPageStateMask_def PageState_of_def
        split: option.splits if_splits)

lemma DoPageCompactionWithStateChange_Inr:
  assumes r: "DoPageCompactionWithStateChange kMode idx tsp page mi (emit c) s = Inr (b, s')"
      and c: "compacted [c] = []" "forward_event c"
  shows "\<exists>evs. evolves s s' evs \<and> list_all forward_event evs
               \<and> compacted evs = (if b then [idx] else [])"
proof (cases "kMode = kFallbackMode \<or> moving_pages_status s idx = (kUnprocessed, 0)")
  case False
  with r have "s' = s \<and> \<not> b" by (simp add: DoPageCompactionWithStateChange_def Let_def)
  then have "evolves s s' [] \<and> list_all forward_event [] \<and> compacted [] = (if b then [idx] else [])"
    by simp
  then show ?thesis by blast
next
  case True
  let ?d = "if mi then kProcessingAndMapping else kProcessing"
  let ?s1 = "if kMode = kFallbackMode then s else set_status idx (?d, 0) s"
  let ?e1 = "if kMode = kFallbackMode then [] else [StateChange idx kUnprocessed ?d]"
  let ?s2 = "emit c (emit (Compacting idx) ?s1)"
  have e1: "evolves s ?s1 ?e1" using True by (auto simp add: evolves_def frame_def set_status_def emit_def)
  have e2: "evolves s ?s2 (?e1 @ [Compacting idx, c])"
    using evolves_trans [OF e1, of ?s2 "[Compacting idx, c]"]
    by (simp add: evolves_def frame_def emit_def)
  have st2: "kMode \<noteq> kFallbackMode \<Longrightarrow> moving_pages_status ?s2 idx = (?d, 0)"
    by (simp add: emit_def set_status_def)
  have cc [simp]: "compacted (c # es) = compacted es" for es
    using c(1) compacted_append [of "[c]" es] by simp
  have f2: "list_all forward_event (?e1 @ [Compacting idx, c])" "compacted (?e1 @ [Compacting idx, c]) = [idx]"
    using c by (auto split: if_splits)
  have b: "b" using r True
    by (auto simp add: DoPageCompactionWithStateChange_def Let_def bnd_Inr
          split: if_splits option.splits)
  consider (fallback) "kMode = kFallbackMode" | (copy_map) "kMode = kCopyMode" "mi"
    | (copy_nomap) "kMode = kCopyMode" "\<not> mi" | (minor) "kMode = kMinorFaultMode"
    by (cases kMode) auto
  then show ?thesis
  proof cases
    case fallback
    with r True have "s' = ?s2" by (simp add: DoPageCompactionWithStateChange_def Let_def)
    with e2 f2 b show ?thesis by auto
  next
    case minor
    with r True show ?thesis by (simp add: DoPageCompactionWithStateChange_def Let_def)
  next
    case copy_nomap
    let ?v = "u32 (size_t (int page - int (from_space_begin ?s2)))"
    from copy_nomap r True obtain v where
      ws: "word_status (or ?v (PageState_code kProcessed)) = Some v"
      and s': "s' = set_status idx v ?s2"
      by (cases "word_status (or ?v (PageState_code kProcessed))")
         (simp_all add: DoPageCompactionWithStateChange_def Let_def)
    have fw: "stage kProcessing < stage (fst v)"
      using word_status_processed [OF ws] by auto
    have "evolves ?s2 s' [StateChange idx kProcessing (fst v)]"
      using copy_nomap by (simp add: s' evolves_def frame_def set_status_def emit_def)
    from evolves_trans [OF e2 this] f2 b copy_nomap fw show ?thesis
      by (intro exI [of _ "?e1 @ [Compacting idx, c] @ [StateChange idx kProcessing (fst v)]"]) auto
  next
    case copy_map
    from copy_map r True obtain s3 where
      cp: "CopyIoctl tsp page (gPageSize ?s2) ?s2 = Inr s3"
      and s': "s' = set_status idx (kProcessedAndMapped, 0) s3"
      by (auto simp add: DoPageCompactionWithStateChange_def Let_def bnd_Inr)
    from CopyIoctl_Inr [OF cp] obtain evs where
      e3: "evolves ?s2 s3 evs" and st3: "moving_pages_status s3 = moving_pages_status ?s2"
      and q: "list_all quiet evs" by blast
    have "moving_pages_status s3 idx = (kProcessingAndMapping, 0)"
      using st3 copy_map by (simp add: emit_def set_status_def)
    then have e4: "evolves s3 s' [StateChange idx kProcessingAndMapping kProcessedAndMapped]"
      by (simp add: s' evolves_def frame_def set_status_def emit_def)
    have ev: "evolves s s' ((?e1 @ [Compacting idx, c]) @ evs @ [StateChange idx kProcessingAndMapping kProcessedAndMapped])"
      by (rule evolves_trans [OF e2 evolves_trans [OF e3 e4]])
    have "list_all forward_event ((?e1 @ [Compacting idx, c]) @ evs @ [StateChange idx kProcessingAndMapping kProcessedAndMapped])
        \<and> compacted ((?e1 @ [Compacting idx, c]) @ evs @ [StateChange idx kProcessingAndMapping kProcessedAndMapped]) = [idx]"
      using quiet_events [OF q] f2 by simp
    with ev b show ?thesis by auto
  qed
qed

lemma wait_mapped_Inr: "wait_mapped i e s = Inr s' \<Longrightarrow> s' = s"
proof (induction i e s rule: wait_mapped.induct)
  case (1 i e s)
  then show ?case
    by (subst (asm) (2) wait_mapped.simps) (auto split: if_splits)
qed

lemma madvise_Inr:
  "madvise a n r s = Inr s' \<Longrightarrow> evolves s s' [Madvise a n r]"
  by (auto simp add: madvise_def evolves_def frame_def emit_def split: list.splits if_splits)

lemma FreeFromSpacePages_Inr:
  assumes "FreeFromSpacePages cur mode e s = Inr (b, s')"
  shows "\<exists>evs. evolves s s' evs \<and> list_all forward_event evs \<and> compacted evs = []"
proof -
  let ?idx = "reclaim_idx (last_checked_reclaim_page_idx s) cur s"
  show ?thesis
  proof (cases "?idx = last_checked_reclaim_page_idx s")
    case True
    with assms have "s' = s" by (simp add: FreeFromSpacePages_def Let_def)
    then have "evolves s s' [] \<and> list_all forward_event [] \<and> compacted [] = []" by simp
    then show ?thesis by blast
  next
    case False
    obtain iter rb where w: "class_after_obj_walk (class_after_obj_iter s) (first_obj_reclaim_begin s ?idx)
                               (idx_addr_of s ?idx) s = (iter, rb)"
      by (cases "class_after_obj_walk (class_after_obj_iter s) (first_obj_reclaim_begin s ?idx)
                               (idx_addr_of s ?idx) s")
    let ?s1 = "s\<lparr>class_after_obj_iter := iter\<rparr>"
    have e1: "evolves s ?s1 []" by (simp add: evolves_def frame_def)
    let ?size0 = "int (last_reclaimed_page ?s1) - int rb"
    from assms False w obtain ret s6 where
      mid: "(if ?size0 > kMinFromSpaceMadviseSize then
                     bnd (if mode = kCopyMode \<and> cur < e then
                            bnd (MapMovingSpacePages cur e ?s1)
                              (\<lambda>(len, s2).
                                 bnd (wait_mapped (cur + DivideByPageSize s2 len) e s2)
                                   (\<lambda>s3. Inr (True, s3)))
                          else Inr (mode = kFallbackMode, ?s1))
                       (\<lambda>(ret, s4).
                          let gBufferPages = 4 * int (gPageSize s4);
                              size1 = ?size0 - gBufferPages;
                              addr = nat (int (last_reclaimed_page s4) - size1)
                          in bnd (madvise (addr + from_space_slide_diff s4) size1
                                    (minor_fault_initialized s4) s4)
                               (\<lambda>s5. Inr (ret, s5\<lparr>last_reclaimed_page := addr,
                                                    cur_reclaimable_page := addr\<rparr>)))
                   else Inr (mode = kFallbackMode, ?s1)) = Inr (ret, s6)"
      and fin: "s' = s6\<lparr>last_reclaimable_page := rb, last_checked_reclaim_page_idx := ?idx\<rparr>"
      by (auto simp add: FreeFromSpacePages_def Let_def bnd_Inr split: if_splits)
    have e6: "evolves s6 s' []" by (simp add: fin evolves_def frame_def)
    have "\<exists>evs. evolves ?s1 s6 evs \<and> list_all forward_event evs \<and> compacted evs = []"
    proof (cases "?size0 > kMinFromSpaceMadviseSize")
      case False
      with mid have "s6 = ?s1" by simp
      then have "evolves ?s1 s6 [] \<and> list_all forward_event [] \<and> compacted [] = []" by simp
      then show ?thesis by blast
    next
      case True
      with mid obtain s4 s5 addr n where
        a: "(if mode = kCopyMode \<and> cur < e then
                            bnd (MapMovingSpacePages cur e ?s1)
                              (\<lambda>(len, s2).
                                 bnd (wait_mapped (cur + DivideByPageSize s2 len) e s2)
                                   (\<lambda>s3. Inr (True, s3)))
                          else Inr (mode = kFallbackMode, ?s1)) = Inr (ret, s4)"
        and m: "madvise (addr + from_space_slide_diff s4) n (minor_fault_initialized s4) s4 = Inr s5"
        and s6: "s6 = s5\<lparr>last_reclaimed_page := addr, cur_reclaimable_page := addr\<rparr>"
        by (auto simp add: bnd_Inr Let_def)
      have "\<exists>evs. evolves ?s1 s4 evs \<and> list_all forward_event evs \<and> compacted evs = []"
      proof (cases "mode = kCopyMode \<and> cur < e")
        case False
        with a have "s4 = ?s1" by auto
        then have "evolves ?s1 s4 [] \<and> list_all forward_event [] \<and> compacted [] = []" by simp
        then show ?thesis by blast
      next
        case True
        with a obtain len s2 where mm: "MapMovingSpacePages cur e ?s1 = Inr (len, s2)"
          and wm: "wait_mapped (cur + DivideByPageSize s2 len) e s2 = Inr s4"
          by (auto simp add: bnd_Inr)
        from wait_mapped_Inr [OF wm] MapMovingSpacePages_Inr [OF mm] show ?thesis by simp
      qed
      then obtain evs where e4: "evolves ?s1 s4 evs" "list_all forward_event evs" "compacted evs = []"
        by blast
      have e5: "evolves s4 s6 [Madvise (addr + from_space_slide_diff s4) n (minor_fault_initialized s4)]"
        using madvise_Inr [OF m] by (simp add: s6 evolves_def frame_def)
      from evolves_trans [OF e4(1) e5] e4(2,3)
      show ?thesis
        by (intro exI [of _ "evs @ [Madvise (addr + from_space_slide_diff s4) n (minor_fault_initialized s4)]"]) simp
    qed
    then obtain evs where ev: "evolves ?s1 s6 evs" "list_all forward_event evs" "compacted evs = []"
      by blast
    from evolves_trans [OF e1 evolves_trans [OF ev(1) e6]] ev(2,3)
    show ?thesis by (intro exI [of _ evs]) simp
  qed
qed

subsection \<open>The collector thread's pass\<close>

lemma compact_black_page_Inr:
  assumes "compact_black_page kMode idx pcp tse page npfo s = Inr s'"
  shows "\<exists>evs. evolves s s' evs \<and> list_all forward_event evs \<and> set (compacted evs) \<subseteq> {idx}
                \<and> length (compacted evs) \<le> 1"
proof (cases "first_objs_moving_space s idx \<noteq> 0")
  case False
  with assms have "s' = s" by (simp add: compact_black_page_def Let_def)
  then have "evolves s s' [] \<and> list_all forward_event [] \<and> set (compacted []) \<subseteq> {idx}
                \<and> length (compacted []) \<le> 1" by simp
  then show ?thesis by blast
next
  case fo: True
  let ?fo = "first_objs_moving_space s idx"
  from assms fo obtain success s1 where
    d: "DoPageCompactionWithStateChange kMode idx tse page True
          (SlideBlackPage ?fo npfo (black_alloc_pages_first_chunk_size s idx)
                           pcp page (kMode = kCopyMode)) s = Inr (success, s1)"
    and f: "(if idx mod nat (kMinFromSpaceMadviseSize div int (gPageSize s1)) = 0 then
               bnd (FreeFromSpacePages idx kMode 0 s1) (\<lambda>(freed, s2). Inr s2)
             else Inr s1) = Inr s'"
    by (auto simp add: compact_black_page_def Let_def bnd_Inr)
  from DoPageCompactionWithStateChange_Inr [OF d [unfolded SlideBlackPage_emit]]
  obtain e1 where e1: "evolves s s1 e1" "list_all forward_event e1"
    "compacted e1 = (if success then [idx] else [])" by auto
  have "\<exists>e2. evolves s1 s' e2 \<and> list_all forward_event e2 \<and> compacted e2 = []"
  proof (cases "idx mod nat (kMinFromSpaceMadviseSize div int (gPageSize s1)) = 0")
    case False
    with f have "s' = s1" by simp
    then have "evolves s1 s' [] \<and> list_all forward_event [] \<and> compacted [] = []" by simp
    then show ?thesis by blast
  next
    case True
    with f obtain freed where "FreeFromSpacePages idx kMode 0 s1 = Inr (freed, s')"
      by (auto simp add: bnd_Inr)
    from FreeFromSpacePages_Inr [OF this] show ?thesis .
  qed
  then obtain e2 where e2: "evolves s1 s' e2" "list_all forward_event e2" "compacted e2 = []"
    by blast
  from evolves_trans [OF e1(1) e2(1)] e1(2,3) e2(2,3)
  show ?thesis by (intro exI [of _ "e1 @ e2"]) auto
qed

lemma compact_moving_page_Inr:
  assumes "compact_moving_page kMode idx tse sse rp e s = Inr (freed, s')"
  shows "\<exists>evs. evolves s s' evs \<and> list_all forward_event evs \<and> set (compacted evs) \<subseteq> {idx}
                \<and> length (compacted evs) \<le> 1"
proof -
  define take where "take = (kMode = kCopyMode \<and> cur_reclaimable_page s > last_reclaimable_page s)"
  define s0 where "s0 = (if take then s\<lparr>cur_reclaimable_page := cur_reclaimable_page s - gPageSize s\<rparr> else s)"
  define page where "page = (if kMode = kMinorFaultMode then sse
                  else if kMode = kFallbackMode then tse
                  else if take then cur_reclaimable_page s0 + from_space_slide_diff s0
                  else rp)"
  define func where "func = CompactPage (first_objs_moving_space s0 idx)
                       (pre_compact_offset_moving_space s0 idx) page (kMode = kCopyMode)"
  have e0: "evolves s s0 []" by (simp add: s0_def evolves_def frame_def)
  have eq: "compact_moving_page kMode idx tse sse rp e s =
     bnd (DoPageCompactionWithStateChange kMode idx tse page (page = rp) func s0)
           (\<lambda>(success, s1).
              bnd (if kMode = kCopyMode \<and> (\<not> success \<or> page = rp) \<and> e - idx > 1
                   then bnd (MapMovingSpacePages (idx + 1) e s1) (\<lambda>(len, s2). Inr s2)
                   else Inr s1)
                (\<lambda>s3. FreeFromSpacePages idx kMode e s3))"
    by (simp add: compact_moving_page_def Let_def s0_def page_def take_def func_def)
  from assms [unfolded eq] obtain success s1 s3 where
    d: "DoPageCompactionWithStateChange kMode idx tse page (page = rp) func s0 = Inr (success, s1)"
    and m: "(if kMode = kCopyMode \<and> (\<not> success \<or> page = rp) \<and> e - idx > 1
                   then bnd (MapMovingSpacePages (idx + 1) e s1) (\<lambda>(len, s2). Inr s2)
                   else Inr s1) = Inr s3"
    and f: "FreeFromSpacePages idx kMode e s3 = Inr (freed, s')"
    by (auto simp add: bnd_Inr)
  have fe: "func = emit (CallCompactPage (first_objs_moving_space s0 idx)
                       (pre_compact_offset_moving_space s0 idx) page (kMode = kCopyMode))"
    by (simp add: func_def CompactPage_emit)
  from DoPageCompactionWithStateChange_Inr [OF d [unfolded fe]]
  obtain e1 where e1: "evolves s0 s1 e1" "list_all forward_event e1"
    "compacted e1 = (if success then [idx] else [])" by auto
  have "\<exists>e2. evolves s1 s3 e2 \<and> list_all forward_event e2 \<and> compacted e2 = []"
  proof (cases "kMode = kCopyMode \<and> (\<not> success \<or> page = rp) \<and> e - idx > 1")
    case False
    with m have "s3 = s1" by auto
    then have "evolves s1 s3 [] \<and> list_all forward_event [] \<and> compacted [] = []" by simp
    then show ?thesis by blast
  next
    case True
    with m obtain len where "MapMovingSpacePages (idx + 1) e s1 = Inr (len, s3)"
      by (auto simp add: bnd_Inr)
    from MapMovingSpacePages_Inr [OF this] show ?thesis .
  qed
  then obtain e2 where e2: "evolves s1 s3 e2" "list_all forward_event e2" "compacted e2 = []"
    by blast
  from FreeFromSpacePages_Inr [OF f] obtain e3 where
    e3: "evolves s3 s' e3" "list_all forward_event e3" "compacted e3 = []" by blast
  from evolves_trans [OF e0 evolves_trans [OF e1(1) evolves_trans [OF e2(1) e3(1)]]]
    e1(2,3) e2(2,3) e3(2,3)
  show ?thesis by (intro exI [of _ "e1 @ e2 @ e3"]) auto
qed

lemma descending_step:
  assumes "set xs \<subseteq> {n}" "length xs \<le> 1" "sorted_wrt (>) ys" "\<forall>i \<in> set ys. i < (n::nat)"
  shows "sorted_wrt (>) (xs @ ys)"
proof -
  have "sorted_wrt (>) xs" using assms(2) by (cases xs) (auto simp add: le_Suc_eq)
  then show ?thesis using assms by (auto simp add: sorted_wrt_append)
qed

lemma compact_black_pages_Inr:
  "compact_black_pages kMode idx pcp tse sse page npfo s = Inr (a, b, c, d, s') \<Longrightarrow>
   \<exists>evs. evolves s s' evs \<and> list_all forward_event evs \<and> sorted_wrt (>) (compacted evs)
       \<and> (\<forall>i \<in> set (compacted evs). moving_first_objs_count s \<le> i \<and> i < idx)"
proof (induction idx arbitrary: pcp tse sse page npfo s)
  case 0
  then have "s' = s" by (subst (asm) compact_black_pages.simps) simp
  then have "evolves s s' [] \<and> list_all forward_event [] \<and> sorted_wrt (>) (compacted [])
       \<and> (\<forall>i \<in> set (compacted []). moving_first_objs_count s \<le> i \<and> i < 0)" by simp
  then show ?case by blast
next
  case (Suc n)
  show ?case
  proof (cases "Suc n > moving_first_objs_count s")
    case False
    with Suc.prems have "s' = s" by (subst (asm) compact_black_pages.simps) simp
    then have "evolves s s' [] \<and> list_all forward_event [] \<and> sorted_wrt (>) (compacted [])
       \<and> (\<forall>i \<in> set (compacted []). moving_first_objs_count s \<le> i \<and> i < Suc n)" by simp
    then show ?thesis by blast
  next
    case True
    define pcp1 where "pcp1 = pcp - gPageSize s"
    define tse1 where "tse1 = tse - gPageSize s"
    define sse1 where "sse1 = (if kMode = kMinorFaultMode then sse - gPageSize s else sse)"
    define page1 where "page1 = (if kMode = kMinorFaultMode then sse1
                      else if kMode = kFallbackMode then tse1 else page)"
    have eq: "compact_black_pages kMode (Suc n) pcp tse sse page npfo s =
       (case compact_black_page kMode n pcp1 tse1 page1 npfo s of
              Inl e \<Rightarrow> Inl e
            | Inr s3 \<Rightarrow> compact_black_pages kMode n pcp1 tse1 sse1 page1 (first_objs_moving_space s n) s3)"
      unfolding pcp1_def tse1_def sse1_def page1_def
      by (rule trans [OF compact_black_pages.simps])
         (simp only: True if_True Let_def diff_Suc_1 cong: sum.case_cong)
    from Suc.prems [unfolded eq] obtain s3 where
      body: "compact_black_page kMode n pcp1 tse1 page1 npfo s = Inr s3"
      and rec: "compact_black_pages kMode n pcp1 tse1 sse1 page1 (first_objs_moving_space s n) s3
                = Inr (a, b, c, d, s')"
      by (cases "compact_black_page kMode n pcp1 tse1 page1 npfo s") simp_all
    from compact_black_page_Inr [OF body]
    obtain evs1 where ev1: "evolves s s3 evs1" "list_all forward_event evs1"
      "set (compacted evs1) \<subseteq> {n}" "length (compacted evs1) \<le> 1" by blast
    from Suc.IH [OF rec] obtain evs2 where ev2: "evolves s3 s' evs2" "list_all forward_event evs2"
      "sorted_wrt (>) (compacted evs2)"
      "\<forall>i \<in> set (compacted evs2). moving_first_objs_count s3 \<le> i \<and> i < n" by blast
    have m: "moving_first_objs_count s3 = moving_first_objs_count s"
      by (rule evolves_fields(2) [OF ev1(1)])
    have "sorted_wrt (>) (compacted (evs1 @ evs2))"
      using descending_step [OF ev1(3,4) ev2(3)] ev2(4) by simp
    moreover have "\<forall>i \<in> set (compacted (evs1 @ evs2)). moving_first_objs_count s \<le> i \<and> i < Suc n"
      using ev1(3) ev2(4) True m by auto
    ultimately show ?thesis
      using evolves_trans [OF ev1(1) ev2(1)] ev1(2) ev2(2)
      by (intro exI [of _ "evs1 @ evs2"]) simp
  qed
qed

lemma compact_moving_pages_Inr:
  "compact_moving_pages kMode idx tse sse rp e s = Inr (a, b, s') \<Longrightarrow>
   \<exists>evs. evolves s s' evs \<and> list_all forward_event evs \<and> sorted_wrt (>) (compacted evs)
       \<and> (\<forall>i \<in> set (compacted evs). i < idx)"
proof (induction idx arbitrary: tse sse e s)
  case 0
  then have "s' = s" by (subst (asm) compact_moving_pages.simps) simp
  then have "evolves s s' [] \<and> list_all forward_event [] \<and> sorted_wrt (>) (compacted [])
       \<and> (\<forall>i \<in> set (compacted []). i < 0)" by simp
  then show ?case by blast
next
  case (Suc n)
  define tse1 where "tse1 = tse - gPageSize s"
  define sse1 where "sse1 = (if kMode = kMinorFaultMode then sse - gPageSize s else sse)"
  have eq: "compact_moving_pages kMode (Suc n) tse sse rp e s =
     (case compact_moving_page kMode n tse1 sse1 rp e s of
              Inl x \<Rightarrow> Inl x
            | Inr (freed, s4) \<Rightarrow>
                compact_moving_pages kMode n tse1 sse1 rp (if freed then n else e) s4)"
    unfolding tse1_def sse1_def
    by (rule trans [OF compact_moving_pages.simps])
       (simp only: zero_less_Suc if_True Let_def diff_Suc_1 cong: sum.case_cong)
  from Suc.prems [unfolded eq] obtain freed s4 where
    body: "compact_moving_page kMode n tse1 sse1 rp e s = Inr (freed, s4)"
    and rec: "compact_moving_pages kMode n tse1 sse1 rp (if freed then n else e) s4 = Inr (a, b, s')"
    by (cases "compact_moving_page kMode n tse1 sse1 rp e s") auto
  from compact_moving_page_Inr [OF body]
  obtain evs1 where ev1: "evolves s s4 evs1" "list_all forward_event evs1"
    "set (compacted evs1) \<subseteq> {n}" "length (compacted evs1) \<le> 1" by blast
  from Suc.IH [OF rec] obtain evs2 where ev2: "evolves s4 s' evs2" "list_all forward_event evs2"
    "sorted_wrt (>) (compacted evs2)" "\<forall>i \<in> set (compacted evs2). i < n" by blast
  have "sorted_wrt (>) (compacted (evs1 @ evs2))"
    using descending_step [OF ev1(3,4) ev2(3,4)] by simp
  moreover have "\<forall>i \<in> set (compacted (evs1 @ evs2)). i < Suc n"
    using ev1(3) ev2(4) by auto
  ultimately show ?case
    using evolves_trans [OF ev1(1) ev2(1)] ev1(2) ev2(2)
    by (intro exI [of _ "evs1 @ evs2"]) simp
qed

lemma CompactMovingSpace_Inr:
  assumes "CompactMovingSpace kMode page s = Inr s'"
  shows "\<exists>evs. evolves s s' evs \<and> list_all forward_event evs \<and> sorted_wrt (>) (compacted evs)
       \<and> (\<forall>i \<in> set (compacted evs). i < moving_first_objs_count s + black_page_count s)"
proof -
  define n where "n = moving_first_objs_count s + black_page_count s"
  define pcp where "pcp = black_allocations_begin s + black_page_count s * gPageSize s"
  define tse where "tse = bump_pointer_space_Begin s + n * gPageSize s"
  define sse where "sse = (if kMode = kMinorFaultMode then shadow_to_space_map_Begin s + n * gPageSize s else 0)"
  have eq: "CompactMovingSpace kMode page s =
    bnd (UpdateClassAfterObjMap s) (\<lambda>s1.
           bnd (compact_black_pages kMode n pcp tse sse page 0
                  (s1\<lparr>last_reclaimed_page := pcp, last_reclaimable_page := pcp,
                       cur_reclaimable_page := pcp, last_checked_reclaim_page_idx := n,
                       class_after_obj_iter := rev (class_after_obj_ordered_map s1)\<rparr>))
                (\<lambda>(pre_compact_page1, to_space_end1, shadow_space_end1, page1, s3).
                   bnd (compact_moving_pages kMode (moving_first_objs_count s3) to_space_end1
                          shadow_space_end1 page1 (moving_first_objs_count s3) s3)
                     (\<lambda>(to_space_end2, end_idx_for_mapping, s4).
                        if kMode = kCopyMode \<and> end_idx_for_mapping > 0 then
                          bnd (MapMovingSpacePages 0 end_idx_for_mapping s4)
                              (\<lambda>(len, s5). Inr s5)
                        else Inr s4)))"
    by (simp add: CompactMovingSpace_def Let_def n_def pcp_def tse_def sse_def)
  from assms [unfolded eq] obtain s1 a b c d s3 t2 e4 s4 where
    u: "UpdateClassAfterObjMap s = Inr s1"
    and bl: "compact_black_pages kMode n pcp tse sse page 0
                  (s1\<lparr>last_reclaimed_page := pcp, last_reclaimable_page := pcp,
                       cur_reclaimable_page := pcp, last_checked_reclaim_page_idx := n,
                       class_after_obj_iter := rev (class_after_obj_ordered_map s1)\<rparr>)
             = Inr (a, b, c, d, s3)"
    and mv: "compact_moving_pages kMode (moving_first_objs_count s3) b c d (moving_first_objs_count s3) s3
             = Inr (t2, e4, s4)"
    and fin: "(if kMode = kCopyMode \<and> e4 > 0 then
                 bnd (MapMovingSpacePages 0 e4 s4) (\<lambda>(len, s5). Inr s5)
               else Inr s4) = Inr s'"
    by (auto simp add: bnd_Inr)
  let ?s2 = "s1\<lparr>last_reclaimed_page := pcp, last_reclaimable_page := pcp,
                       cur_reclaimable_page := pcp, last_checked_reclaim_page_idx := n,
                       class_after_obj_iter := rev (class_after_obj_ordered_map s1)\<rparr>"
  have e2: "evolves s ?s2 []"
    using u by (auto simp add: UpdateClassAfterObjMap_def evolves_def frame_def split: if_splits)
  from compact_black_pages_Inr [OF bl] obtain evs1 where
    ev1: "evolves ?s2 s3 evs1" "list_all forward_event evs1" "sorted_wrt (>) (compacted evs1)"
      "\<forall>i \<in> set (compacted evs1). moving_first_objs_count ?s2 \<le> i \<and> i < n" by blast
  from compact_moving_pages_Inr [OF mv] obtain evs2 where
    ev2: "evolves s3 s4 evs2" "list_all forward_event evs2" "sorted_wrt (>) (compacted evs2)"
      "\<forall>i \<in> set (compacted evs2). i < moving_first_objs_count s3" by blast
  have "\<exists>evs3. evolves s4 s' evs3 \<and> list_all forward_event evs3 \<and> compacted evs3 = []"
  proof (cases "kMode = kCopyMode \<and> e4 > 0")
    case False
    with fin have "s' = s4" by auto
    then have "evolves s4 s' [] \<and> list_all forward_event [] \<and> compacted [] = []" by simp
    then show ?thesis by blast
  next
    case True
    with fin obtain len where "MapMovingSpacePages 0 e4 s4 = Inr (len, s')"
      by (auto simp add: bnd_Inr)
    from MapMovingSpacePages_Inr [OF this] show ?thesis .
  qed
  then obtain evs3 where ev3: "evolves s4 s' evs3" "list_all forward_event evs3" "compacted evs3 = []"
    by blast
  have m2: "moving_first_objs_count ?s2 = moving_first_objs_count s"
    by (rule evolves_fields(2) [OF e2])
  have m3: "moving_first_objs_count s3 = moving_first_objs_count s"
    using evolves_fields(2) [OF ev1(1)] m2 by simp
  have ev: "evolves s s' (evs1 @ evs2 @ evs3)"
    using evolves_trans [OF e2 evolves_trans [OF ev1(1) evolves_trans [OF ev2(1) ev3(1)]]] by simp
  have srt: "sorted_wrt (>) (compacted (evs1 @ evs2 @ evs3))"
    using ev1(3,4) ev2(3,4) ev3(3) m2 m3 by (fastforce simp add: sorted_wrt_append)
  have bnd: "\<forall>i \<in> set (compacted (evs1 @ evs2 @ evs3)). i < moving_first_objs_count s + black_page_count s"
    using ev1(4) ev2(4) ev3(3) m3 by (auto simp add: n_def)
  from ev srt bnd ev1(2) ev2(2) ev3(2) show ?thesis
    by (intro exI [of _ "evs1 @ evs2 @ evs3"]) simp
qed

subsection \<open>A fault on a moving-space page\<close>

lemma evolves_upd:
  "evolves s (s\<lparr>moving_pages_status := f, events := events s @ evs\<rparr>) evs"
  "evolves s (s\<lparr>kernel := k, events := events s @ evs\<rparr>) evs"
  "evolves s (s\<lparr>compaction_in_progress_count := c\<rparr>) []"
  "evolves s (s\<lparr>compaction_buffer_counter := c\<rparr>) []"
  by (simp_all add: evolves_def frame_def)

lemma ioctl_events: "list_all is_ioctl evs \<Longrightarrow> list_all quiet evs"
  by (induction evs) (auto elim: is_ioctl.elims)

lemma mutator_compact_page_Inr:
  assumes "mutator_compact_page kMode fault_page buf page_idx first_obj self s = Inr (self', s')"
    and u: "fst (moving_pages_status s page_idx) = kUnprocessed"
  shows "\<exists>evs. evolves s s' evs \<and> list_all forward_event evs \<and> compacted evs = [page_idx]"
proof -
  define s1 where "s1 = set_status page_idx (kMutatorProcessing, 0) s"
  define idx where "idx = compaction_buffer_counter s1 mod 2 ^ 16"
  define fresh where "fresh = (kMode \<noteq> kMinorFaultMode \<and> buf = 0)"
  define s2 where "s2 = (if fresh then s1\<lparr>compaction_buffer_counter := (idx + 1) mod 2 ^ 16\<rparr>
                else s1)"
  define buf1 where "buf1 = (if kMode = kMinorFaultMode
                  then shadow_to_space_map_Begin s2 + page_idx * gPageSize s2
                  else if fresh then compaction_buffers_map_Begin s2 + idx * gPageSize s2
                  else buf)"
  define self1 where "self1 = (if fresh then self\<lparr>thread_local_gc_buffer := buf1\<rparr> else self)"
  define s3 where "s3 = emit (Compacting page_idx) s2"
  define c where "c = (if fault_page < post_compact_end s3 then
                       CallCompactPage first_obj (pre_compact_offset_moving_space s3 page_idx)
                         buf1 (kMode = kCopyMode)
                     else
                       CallSlideBlackPage first_obj
                         (if page_idx + 1 < moving_first_objs_count s3 + black_page_count s3
                              then first_objs_moving_space s3 (page_idx + 1) else 0)
                         (black_alloc_pages_first_chunk_size s3 page_idx)
                         (black_allocations_begin s3 + (fault_page - post_compact_end s3))
                         buf1 (kMode = kCopyMode))"
  define s4 where "s4 = emit c s3"
  define s5 where "s5 = set_status page_idx (kProcessedAndMapping, 0) s4"
  have eq: "mutator_compact_page kMode fault_page buf page_idx first_obj self s =
     (if fresh \<and> \<not> idx \<le> 2048 then Inl CheckFailed
      else if kMode = kCopyMode then
                bnd (CopyIoctl fault_page buf1 (gPageSize s5) s5)
                  (\<lambda>s6. Inr (self1,
                               (set_status page_idx (kProcessedAndMapped, 0) s6)
                                 \<lparr>compaction_in_progress_count :=
                                    compaction_in_progress_count s6 - 1\<rparr>))
              else Inl Unreachable)"
    by (simp add: mutator_compact_page_def Let_def s1_def idx_def fresh_def s2_def buf1_def
          self1_def s3_def c_def s4_def s5_def CompactPage_emit SlideBlackPage_emit)
  from assms(1) [unfolded eq] obtain s6 where
    cp: "CopyIoctl fault_page buf1 (gPageSize s5) s5 = Inr s6"
    and s': "s' = (set_status page_idx (kProcessedAndMapped, 0) s6)
                    \<lparr>compaction_in_progress_count := compaction_in_progress_count s6 - 1\<rparr>"
    by (auto simp add: bnd_Inr split: if_splits)
  from CopyIoctl_Inr [OF cp] obtain evs where
    e56: "evolves s5 s6 evs" and st6: "moving_pages_status s6 = moving_pages_status s5"
    and q: "list_all quiet evs" by blast
  have e01: "evolves s s1 [StateChange page_idx kUnprocessed kMutatorProcessing]"
    using evolves_set_status [of s page_idx "(kMutatorProcessing, 0)"] u by (simp add: s1_def)
  have e12: "evolves s1 s2 []" by (simp add: s2_def evolves_upd)
  have e23: "evolves s2 s3 [Compacting page_idx]" by (simp add: s3_def)
  have e34: "evolves s3 s4 [c]" by (simp add: s4_def)
  have st4: "moving_pages_status s4 page_idx = (kMutatorProcessing, 0)"
    by (simp add: s4_def s3_def s2_def s1_def set_status_def emit_def)
  have e45: "evolves s4 s5 [StateChange page_idx kMutatorProcessing kProcessedAndMapping]"
    using evolves_set_status [of s4 page_idx "(kProcessedAndMapping, 0)"] st4 by (simp add: s5_def)
  have st5: "moving_pages_status s5 page_idx = (kProcessedAndMapping, 0)"
    by (simp add: s5_def set_status_def emit_def)
  have e67: "evolves s6 (set_status page_idx (kProcessedAndMapped, 0) s6)
               [StateChange page_idx kProcessedAndMapping kProcessedAndMapped]"
    using evolves_set_status [of s6 page_idx "(kProcessedAndMapped, 0)"] st6 st5 by simp
  have e78: "evolves (set_status page_idx (kProcessedAndMapped, 0) s6) s' []"
    by (simp add: s' evolves_upd)
  have cc: "compacted [c] = []" "forward_event c" by (simp_all add: c_def)
  have cc': "compacted (c # es) = compacted es" for es
    using compacted_append [of "[c]" es] cc(1) by simp
  note ev = evolves_trans [OF e01 evolves_trans [OF e12 evolves_trans [OF e23 evolves_trans [OF e34
      evolves_trans [OF e45 evolves_trans [OF e56 evolves_trans [OF e67 e78]]]]]]]
  from quiet_events [OF q] cc have
    "list_all forward_event ([StateChange page_idx kUnprocessed kMutatorProcessing] @ [] @
        [Compacting page_idx] @ [c] @ [StateChange page_idx kMutatorProcessing kProcessedAndMapping]
        @ evs @ [StateChange page_idx kProcessedAndMapping kProcessedAndMapped] @ [])"
    "compacted ([StateChange page_idx kUnprocessed kMutatorProcessing] @ [] @
        [Compacting page_idx] @ [c] @ [StateChange page_idx kMutatorProcessing kProcessedAndMapping]
        @ evs @ [StateChange page_idx kProcessedAndMapping kProcessedAndMapped] @ []) = [page_idx]"
    by (simp_all add: cc')
  with ev show ?thesis by blast
qed

lemma process_moving_page_Inr:
  "process_moving_page kMode fault_page buf page_idx first_obj raw_state self s = Inr (self', s') \<Longrightarrow>
   \<exists>evs. evolves s s' evs \<and> list_all forward_event evs \<and> set (compacted evs) \<subseteq> {page_idx}
        \<and> length (compacted evs) \<le> 1"
proof (induction kMode fault_page buf page_idx first_obj raw_state self s
       rule: process_moving_page.induct)
  case (1 kMode fault_page buf page_idx first_obj raw_state self s)
  define state where "state = fst raw_state"
  define s0 where "s0 = s\<lparr>compaction_in_progress_count := compaction_in_progress_count s + 1\<rparr>"
  have e0: "evolves s s0 []" by (simp add: s0_def evolves_upd)
  have triv: "\<exists>evs. evolves s s evs \<and> list_all forward_event evs \<and> set (compacted evs) \<subseteq> {page_idx}
        \<and> length (compacted evs) \<le> 1"
    by (intro exI [of _ "[]"]) simp
  consider (busy) "state = kProcessing \<or> state = kMutatorProcessing
            \<or> state = kProcessingAndMapping \<or> state = kProcessedAndMapping"
    | (mapped) "state = kProcessedAndMapped"
    | (won) "state = kUnprocessed" "moving_pages_status s page_idx = raw_state"
    | (other) "state = kUnprocessed \<or> state = kProcessed"
        "\<not> (state = kUnprocessed \<and> moving_pages_status s page_idx = raw_state)"
    by (cases state) auto
  then show ?case
  proof cases
    case busy
    with "1.prems" have "s' = s"
      by (subst (asm) process_moving_page.simps) (auto simp add: state_def Let_def split: if_splits)
    with triv show ?thesis by simp
  next
    case mapped
    with "1.prems" have "s' = s"
      by (subst (asm) process_moving_page.simps) (auto simp add: state_def Let_def split: if_splits)
    with triv show ?thesis by simp
  next
    case won
    with "1.prems" have m: "mutator_compact_page kMode fault_page buf page_idx first_obj self s0
                            = Inr (self', s')"
      by (subst (asm) process_moving_page.simps) (simp add: state_def Let_def s0_def)
    have "fst (moving_pages_status s0 page_idx) = kUnprocessed"
      using won by (simp add: s0_def state_def)
    from mutator_compact_page_Inr [OF m this] obtain evs where
      "evolves s0 s' evs" "list_all forward_event evs" "compacted evs = [page_idx]" by blast
    with evolves_trans [OF e0 this(1)] show ?thesis
      by (intro exI [of _ evs]) simp
  next
    case other
    note p = "1.prems" [unfolded process_moving_page.simps
                 [of kMode fault_page buf page_idx first_obj raw_state self s]]
    let ?raw0 = "if fst raw_state = kUnprocessed then moving_pages_status s page_idx else raw_state"
    let ?N = "moving_first_objs_count s + black_page_count s"
    have nb: "\<not> (fst raw_state = kProcessing \<or> fst raw_state = kMutatorProcessing
            \<or> fst raw_state = kProcessingAndMapping \<or> fst raw_state = kProcessedAndMapping)"
      "fst raw_state \<noteq> kProcessedAndMapped"
      using other(1) by (auto simp add: state_def)
    have nw: "\<not> (fst raw_state = kUnprocessed \<and> moving_pages_status s page_idx = raw_state)"
      using other(2) by (simp add: state_def)
    show ?thesis
    proof (cases "fst ?raw0 = kProcessed")
      case False
      from p nb nw False
      have r: "process_moving_page kMode fault_page buf page_idx first_obj ?raw0 self s
               = Inr (self', s')"
        by (simp add: Let_def cong: if_cong)
      from "1.IH"(2) [OF refl _ _ refl _ refl] nb nw False r show ?thesis
        by (simp cong: if_cong)
    next
      case True
      show ?thesis
      proof (cases "MapMovingSpacePages page_idx ?N s0")
        case (Inl e)
        with p nb nw True show ?thesis by (simp add: Let_def s0_def cong: if_cong)
      next
        case (Inr b)
        then obtain n s1 where mm: "MapMovingSpacePages page_idx ?N s0 = Inr (n, s1)"
          by (cases b) simp
        from MapMovingSpacePages_Inr [OF mm] obtain evs1 where
          ev1: "evolves s0 s1 evs1" "list_all forward_event evs1" "compacted evs1 = []" by blast
        let ?s2 = "s1\<lparr>compaction_in_progress_count := compaction_in_progress_count s1 - 1\<rparr>"
        have e2: "evolves s ?s2 evs1"
          using evolves_trans [OF e0 evolves_trans [OF ev1(1) evolves_upd(3)]] by simp
        from p nb nw True mm
        have q: "(if gPageSize s1 \<le> n then Inr (self, ?s2)
                  else if fst (moving_pages_status s1 page_idx) = kProcessed then Inl Waiting
                  else process_moving_page kMode fault_page buf page_idx first_obj
                         (moving_pages_status s1 page_idx) self ?s2) = Inr (self', s')"
          by (simp add: Let_def s0_def cong: if_cong)
        show ?thesis
        proof (cases "gPageSize s1 \<le> n")
          case True
          with q have "s' = ?s2" by simp
          with e2 ev1(2,3) show ?thesis by (intro exI [of _ evs1]) simp
        next
          case False
          with q have np: "fst (moving_pages_status s1 page_idx) \<noteq> kProcessed"
            and r: "process_moving_page kMode fault_page buf page_idx first_obj
                         (moving_pages_status s1 page_idx) self ?s2 = Inr (self', s')"
            by (auto split: if_splits)
          let ?s0 = "s\<lparr>compaction_in_progress_count := compaction_in_progress_count s + 1\<rparr>"
          have mm': "MapMovingSpacePages page_idx
                       (moving_first_objs_count ?s0 + black_page_count ?s0) ?s0 = Inr (n, s1)"
            using mm by (simp add: s0_def)
          from "1.IH"(1) [OF refl _ _ refl _ refl _ mm' refl refl _ refl]
            nb nw True False np r
          obtain evs2 where ev2: "evolves ?s2 s' evs2" "list_all forward_event evs2"
            "set (compacted evs2) \<subseteq> {page_idx}" "length (compacted evs2) \<le> 1"
            by (auto cong: if_cong)
          from evolves_trans [OF e2 ev2(1)] ev1(2,3) ev2(2,3,4) show ?thesis
            by (intro exI [of _ "evs1 @ evs2"]) simp
        qed
      qed
    qed
  qed
qed

lemma ConcurrentlyProcessMovingPage_Inr:
  assumes "ConcurrentlyProcessMovingPage kMode fault_page buf n self s = Inr (self', s')"
  shows "\<exists>evs. evolves s s' evs \<and> list_all forward_event evs
               \<and> set (compacted evs) \<subseteq> {page_index s fault_page}
               \<and> length (compacted evs) \<le> 1"
proof -
  let ?idx = "page_index s fault_page"
  consider (unused) "kMode = kCopyMode \<and> fault_page \<ge> bump_pointer_space_Begin s + n * gPageSize s"
    | (zero) "\<not> (kMode = kCopyMode \<and> fault_page \<ge> bump_pointer_space_Begin s + n * gPageSize s)"
        "first_objs_moving_space s ?idx = 0"
    | (obj) "\<not> (kMode = kCopyMode \<and> fault_page \<ge> bump_pointer_space_Begin s + n * gPageSize s)"
        "first_objs_moving_space s ?idx \<noteq> 0"
    by blast
  then show ?thesis
  proof cases
    case unused
    with assms have "ZeropageIoctl fault_page (gPageSize s) True True s = Inr s'"
      by (auto simp add: ConcurrentlyProcessMovingPage_def Let_def bnd_Inr)
    from ZeropageIoctl_Inr [OF this] obtain k evs where
      s': "s' = s\<lparr>kernel := k, events := events s @
                     CallZeropageIoctl fault_page (gPageSize s) True True # evs\<rparr>"
      and io: "list_all is_ioctl evs" by blast
    have "evolves s s' (CallZeropageIoctl fault_page (gPageSize s) True True # evs)"
      unfolding s' by (rule evolves_upd)
    moreover from quiet_events [OF ioctl_events [OF io]]
    have "list_all forward_event (CallZeropageIoctl fault_page (gPageSize s) True True # evs)"
      "compacted (CallZeropageIoctl fault_page (gPageSize s) True True # evs) = []" by simp_all
    ultimately show ?thesis
      by (intro exI [of _ "CallZeropageIoctl fault_page (gPageSize s) True True # evs"]) simp
  next
    case zero
    let ?p = "page_index s fault_page" and ?n = "zero_run s self fault_page"
    let ?e = "zero_run_end s self fault_page"
    let ?g = "gPageSize s"
    let ?c = "map (\<lambda>j. StateChange j kUnprocessed kProcessedAndMapping) [?p..<?p + ?n]"
    let ?s1 = "s\<lparr>moving_pages_status :=
           (\<lambda>j. if ?p \<le> j \<and> j < ?p + ?n then (kProcessedAndMapping, 0)
                else moving_pages_status s j),
         events := events s @ ?c\<rparr>"
    have claim: "claim_zero_pages ?p ?e 0 s = (?n * ?g, ?s1)"
      using claim_zero_pages_eq [of ?p ?e 0 s] by (simp add: zero_run_def)
    have null: "first_objs_moving_space s ?p = 0"
      using zero(2) by simp
    have fc: "list_all forward_event ?c" "compacted ?c = []"
      by (simp_all add: list_all_iff)
    show ?thesis
    proof (cases "?n * ?g = 0")
      case True
      from assms zero(1) null claim True have "s' = ?s1"
        by (auto simp add: ConcurrentlyProcessMovingPage_def Let_def page_index_def
              zero_run_end_def bnd_def)
      then have "evolves s s' ?c" by (simp add: evolves_upd)
      with fc show ?thesis by (intro exI [of _ ?c]) simp
    next
      case False
      then have pos: "0 < ?n * ?g" and g: "0 < ?g" by simp_all
      from assms zero(1) null claim pos
      have r: "bnd (ZeropageIoctl fault_page (?n * ?g) False True ?s1)
                 (\<lambda>s2. bnd (mark_zero_pages 0 ?p (?n * ?g) s2) (\<lambda>s3. Inr (self, s3)))
               = Inr (self', s')"
        by (simp add: ConcurrentlyProcessMovingPage_def Let_def page_index_def zero_run_end_def)
      then obtain s2 where z: "ZeropageIoctl fault_page (?n * ?g) False True ?s1 = Inr s2"
        and m: "bnd (mark_zero_pages 0 ?p (?n * ?g) s2) (\<lambda>s3. Inr (self, s3)) = Inr (self', s')"
        by (cases "ZeropageIoctl fault_page (?n * ?g) False True ?s1") (simp_all add: bnd_def)
      from ZeropageIoctl_Inr [OF z] obtain k evs where
        s2: "s2 = ?s1\<lparr>kernel := k,
                       events := events ?s1 @ CallZeropageIoctl fault_page (?n * ?g) False True # evs\<rparr>"
        and evs: "list_all is_ioctl evs" by blast
      have g2: "gPageSize s2 = ?g" by (simp add: s2)
      let ?m = "map (\<lambda>j. StateChange j (fst (moving_pages_status s2 j)) kProcessedAndMapped)
                  [?p..<?p + ?n]"
      have "mark_zero_pages (0 * gPageSize s2) ?p (?n * gPageSize s2) s2 =
              Inr (s2\<lparr>moving_pages_status :=
             (\<lambda>j. if ?p \<le> j \<and> j < ?p + (?n - 0) then (kProcessedAndMapped, 0)
                  else moving_pages_status s2 j),
           events := events s2 @ map (\<lambda>j. StateChange j (fst (moving_pages_status s2 j)) kProcessedAndMapped)
                                    [?p..<?p + (?n - 0)]\<rparr>)"
        by (rule mark_zero_pages_eq) (simp_all add: g2 g)
      with m have s': "s' = s2\<lparr>moving_pages_status :=
             (\<lambda>j. if ?p \<le> j \<and> j < ?p + ?n then (kProcessedAndMapped, 0)
                  else moving_pages_status s2 j),
           events := events s2 @ ?m\<rparr>"
        by (auto simp add: g2 bnd_def)
      let ?all = "?c @ (CallZeropageIoctl fault_page (?n * ?g) False True # evs) @ ?m"
      have ev: "evolves s s' ?all"
        by (simp add: s' s2 evolves_def frame_def)
      have fm: "list_all forward_event ?m" "compacted ?m = []"
        by (simp_all add: list_all_iff s2)
      from quiet_events [OF ioctl_events [OF evs]] fc fm
      have "list_all forward_event ?all" "compacted ?all = []"
        by simp_all
      with ev show ?thesis by (intro exI [of _ ?all]) simp
    qed
  next
    case obj
    with assms have "process_moving_page kMode fault_page buf ?idx (first_objs_moving_space s ?idx)
                      (moving_pages_status s ?idx) self s = Inr (self', s')"
      by (simp add: ConcurrentlyProcessMovingPage_def Let_def page_index_def)
    from process_moving_page_Inr [OF this] show ?thesis by blast
  qed
qed

subsection \<open>The order of compactions\<close>

lemma new_events_evolves: "evolves s s' evs \<Longrightarrow> new_events s s' = evs"
  by (simp add: evolves_def new_events_def)

text \<open>Running the collector and a fault on the examples.\<close>

lemma mc0_fields [simp]:
  "gPageSize mc0 = 4096" "kAlignment mc0 = 8" "bump_pointer_space_Begin mc0 = 0"
  "moving_space_begin mc0 = 0" "shadow_to_space_map_Begin mc0 = 0"
  "black_page_count mc0 = 0" "black_alloc_pages_first_chunk_size mc0 = (\<lambda>_. 0)"
  "moving_pages_status mc0 = (\<lambda>_. (kUnprocessed, 0))"
  "class_after_obj_hash_map mc0 = []" "super_class_after_class_hash_map mc0 = []"
  "class_after_obj_ordered_map mc0 = []" "class_after_obj_iter mc0 = []"
  "minor_fault_initialized mc0 = False" "use_uffd_sigbus mc0 = True"
  "compaction_in_progress_count mc0 = 0" "compaction_buffer_counter mc0 = 1"
  "events mc0 = []"
  by (simp_all add: mc0_def)

lemma idle_thread_fields [simp]: "tlab_start idle_thread = 0" "tlab_end idle_thread = 0"
  by (simp_all add: idle_thread_def)

lemmas run_defs = CompactMovingSpace_def UpdateClassAfterObjMap_def Let_def bnd_def
  compact_black_pages.simps compact_black_page_def compact_moving_pages.simps
  compact_moving_page_def
  DoPageCompactionWithStateChange_def CompactPage_def SlideBlackPage_def CopyIoctl_def
  CopyIoctl_loop.simps claim_moving.simps mark_moving_mapped.simps
  set_status_def emit_def MapMovingSpacePages_def FreeFromSpacePages_def reclaim_idx.simps
  idx_addr_of_def first_obj_reclaim_begin_def AlignUp_def RoundUp_def AlignDown_def
  kMinFromSpaceMadviseSize_def ConcurrentlyProcessMovingPage_def DivideByPageSize_def
  process_moving_page.simps mutator_compact_page_def size_t_def u32_def word_status_def
  PageState_of_def kPageStateMask_def

lemma collect_three_events:
  "collect_three = Inr (projr collect_three)
   \<and> compacted (events (projr collect_three)) = [2, 1, 0]"
  by (simp add: collect_three_def three_pages_def run_defs)

lemma fault_only_events:
  "fault_only = Inr (fst (projr fault_only), snd (projr fault_only))
   \<and> compacted (events (snd (projr fault_only))) = [0]"
  by (simp add: fault_only_def two_pages_def run_defs)

lemma example_events: "events two_pages = []" "events three_pages = []"
  by (simp_all add: two_pages_def three_pages_def)

text \<open>
  C6, party by party. A pass of the collector thread (\<open>CompactMovingSpace\<close>)
  that returns has invoked the compaction function on pages in strictly
  descending index order (so on no page twice), and only on pages of the used
  part of the moving space. The handling of one fault
  (\<open>ConcurrentlyProcessMovingPage\<close>) that returns has invoked the compaction
  function at most once, and on no page other than the one faulted on.
\<close>

theorem compaction_order_by_party:
  "(CompactMovingSpace kMode page s = Inr s' \<longrightarrow>
      sorted_wrt (>) (compacted (new_events s s'))
      \<and> (\<forall>i \<in> set (compacted (new_events s s')).
            i < moving_first_objs_count s + black_page_count s))
   \<and> (ConcurrentlyProcessMovingPage kMode fault_page buf nr self t = Inr (self', t') \<longrightarrow>
      length (compacted (new_events t t')) \<le> 1
      \<and> set (compacted (new_events t t')) \<subseteq> {page_index t fault_page})"
proof (intro conjI impI)
  assume "CompactMovingSpace kMode page s = Inr s'"
  from CompactMovingSpace_Inr [OF this] obtain evs where
    e: "evolves s s' evs" "sorted_wrt (>) (compacted evs)"
       "\<forall>i \<in> set (compacted evs). i < moving_first_objs_count s + black_page_count s"
    by blast
  from new_events_evolves [OF e(1)] e(2,3)
  show "sorted_wrt (>) (compacted (new_events s s'))"
    and "\<forall>i \<in> set (compacted (new_events s s')).
            i < moving_first_objs_count s + black_page_count s"
    by simp_all
next
  assume "ConcurrentlyProcessMovingPage kMode fault_page buf nr self t = Inr (self', t')"
  from ConcurrentlyProcessMovingPage_Inr [OF this] obtain evs where
    e: "evolves t t' evs" "set (compacted evs) \<subseteq> {page_index t fault_page}"
       "length (compacted evs) \<le> 1"
    by blast
  from new_events_evolves [OF e(1)] e(2,3)
  show "length (compacted (new_events t t')) \<le> 1"
    and "set (compacted (new_events t t')) \<subseteq> {page_index t fault_page}"
    by simp_all
qed

theorem compaction_order_by_party_witness:
  "CompactMovingSpace kCopyMode 2097152 three_pages = Inr (projr collect_three)
   \<and> compacted (new_events three_pages (projr collect_three)) = [2, 1, 0]
   \<and> sorted_wrt (>) (compacted (new_events three_pages (projr collect_three)))
   \<and> ConcurrentlyProcessMovingPage kCopyMode 0 0 2 idle_thread two_pages
        = Inr (fst (projr fault_only), snd (projr fault_only))
   \<and> compacted (new_events two_pages (snd (projr fault_only))) = [0]
   \<and> page_index two_pages 0 = 0
   \<and> length (compacted (new_events two_pages (snd (projr fault_only)))) \<le> 1
   \<and> set (compacted (new_events two_pages (snd (projr fault_only))))
        \<subseteq> {page_index two_pages 0}"
proof -
  have r: "CompactMovingSpace kCopyMode 2097152 three_pages = Inr (projr collect_three)"
    using collect_three_events by (simp add: collect_three_def)
  have c: "compacted (new_events three_pages (projr collect_three)) = [2, 1, 0]"
    using collect_three_events by (simp add: new_events_def example_events)
  have f: "ConcurrentlyProcessMovingPage kCopyMode 0 0 2 idle_thread two_pages
        = Inr (fst (projr fault_only), snd (projr fault_only))"
    using fault_only_events by (simp add: fault_only_def)
  have d: "compacted (new_events two_pages (snd (projr fault_only))) = [0]"
    using fault_only_events by (simp add: new_events_def example_events)
  have p: "page_index two_pages 0 = 0"
    by (simp add: page_index_def DivideByPageSize_def size_t_def two_pages_def)
  note t = compaction_order_by_party [of kCopyMode 2097152 three_pages "projr collect_three"
      0 0 2 idle_thread two_pages "fst (projr fault_only)" "snd (projr fault_only)"]
  have a: "sorted_wrt (>) (compacted (new_events three_pages (projr collect_three)))"
    using t r by blast
  have b: "length (compacted (new_events two_pages (snd (projr fault_only)))) \<le> 1"
    using t f by blast
  have b': "set (compacted (new_events two_pages (snd (projr fault_only))))
        \<subseteq> {page_index two_pages 0}"
    using t f by blast
  show ?thesis by (intro conjI; fact r c a f d p b b')
qed

text \<open>
  C6 as stated, for every party: a mutator that faults on page 0 compacts it
  before the collector thread compacts page 1, so over the cycle the lower page
  is compacted first.
\<close>

theorem fault_compacts_lower_page_first_counterexample:
  "fault_then_collect = Inr (projr fault_then_collect)
   \<and> compacted (events (projr fault_then_collect)) = [0, 1]"
  by (simp add: fault_then_collect_def two_pages_def run_defs)

subsection \<open>Publishing with a kernel that maps less than asked\<close>




lemma processed_pages_le: "processed_pages arr i e \<le> e - i"
  unfolding processed_pages_def
  using length_takeWhile_le [of "\<lambda>j. arr j = kProcessed" "[i..<e]"] by simp


lemma emit_gPageSize [simp]: "gPageSize (emit e s) = gPageSize s"
  by (simp add: emit_def)





lemma eagain_fields [simp]:
  "r_ret (eagain b) = - 1" "r_errno (eagain b) = EAGAIN" "r_bytes (eagain b) = int b"
  by (simp_all add: eagain_def)











lemma linear_arr_claimed [simp]: "claimed_pages False linear_arr 0 3 = 3"
  by (simp add: claimed_pages_def processed_pages_def linear_arr_def upt_conv_Cons)

lemma ok_fields2 [simp]: "r_errno ok = EOTHER" "r_bytes ok = 0"
  by (simp_all add: ok_def)

lemma kernel_fields [simp]:
  "kernel eagain_kernel = [eagain 4096, ok]" "gPageSize eagain_kernel = 4096"
  "use_uffd_sigbus eagain_kernel = True" "events eagain_kernel = []"
  "kernel retry_kernel = [eagain 4096, eagain 4096, ok]" "events retry_kernel = []"
  by (simp_all add: eagain_kernel_def retry_kernel_def mc0_def)





subsection \<open>The direction of state changes\<close>





end
